theory Spec2Isabelle
  imports Main "HOL-Library.Sublist"
begin

section \<open>JavaScript strings\<close>

text \<open>
  A JavaScript string is a sequence of UTF-16 code units; a code unit is modelled by its
  number.  \<open>str\<close> turns an ASCII literal into such a sequence, so that the inputs of the
  examples below can be read as text.
\<close>

type_synonym jsstring = "nat list"

definition str :: "string \<Rightarrow> jsstring" where
  "str s = map of_char s"

abbreviation (input) QUOTE :: nat where "QUOTE \<equiv> 34"
abbreviation (input) COMMA :: nat where "COMMA \<equiv> 44"
abbreviation (input) HYPHEN :: nat where "HYPHEN \<equiv> 45"
abbreviation (input) LF :: nat where "LF \<equiv> 10"
abbreviation (input) CR :: nat where "CR \<equiv> 13"

text \<open>
  The code units that \<open>String.prototype.trim\<close> removes and that the regular expression
  class \<open>\s\<close> matches (ECMAScript WhiteSpace and LineTerminator): TAB, LF, VT, FF, CR,
  SPACE, NBSP, U+1680, U+2000..U+200A, U+2028, U+2029, U+202F, U+205F, U+3000, U+FEFF.
\<close>

definition isSpace :: "nat \<Rightarrow> bool" where
  "isSpace c = (c \<in> {9, 10, 11, 12, 13, 32, 160, 5760, 8232, 8233, 8239, 8287, 12288, 65279}
                \<or> (8192 \<le> c \<and> c \<le> 8202))"

definition trim :: "jsstring \<Rightarrow> jsstring" where
  "trim s = rev (dropWhile isSpace (rev (dropWhile isSpace s)))"

text \<open>\<open>s[i]\<close>: reading past the end of a string gives \<open>undefined\<close>, here \<open>None\<close>.\<close>

definition charAt :: "jsstring \<Rightarrow> nat \<Rightarrow> nat option" where
  "charAt s i = (if i < length s then Some (s ! i) else None)"

section \<open>The CSV scanner of \<open>parseCSV\<close>\<close>

text \<open>The local variables of the scanning loop of \<open>parseCSV\<close>, the index \<open>i\<close> apart.\<close>

record scan =
  rows :: "jsstring list list"
  currentRow :: "jsstring list"
  currentField :: jsstring
  inQuotes :: bool

definition scan0 :: scan where
  "scan0 = \<lparr>rows = [], currentRow = [], currentField = [], inQuotes = False\<rparr>"

text \<open>\<open>currentRow.length > 0 && currentRow.some(field => field.trim() !== '')\<close>\<close>

definition keepRow :: "jsstring list \<Rightarrow> bool" where
  "keepRow row = (length row > 0 \<and> list_ex (\<lambda>field. trim field \<noteq> []) row)"

text \<open>
  One iteration of \<open>while (i < csvText.length)\<close>, for \<open>i\<close> in range: the new index and
  the new values of the variables.
\<close>

definition step :: "jsstring \<Rightarrow> nat \<Rightarrow> scan \<Rightarrow> nat \<times> scan" where
  "step csvText i st =
    (let char = csvText ! i; nextChar = charAt csvText (i + 1) in
     if char = QUOTE then
       (if inQuotes st \<and> nextChar = Some QUOTE
        then (i + 2, st\<lparr>currentField := currentField st @ [QUOTE]\<rparr>)
        else (i + 1, st\<lparr>inQuotes := \<not> inQuotes st\<rparr>))
     else if char = COMMA \<and> \<not> inQuotes st then
       (i + 1, st\<lparr>currentRow := currentRow st @ [currentField st], currentField := []\<rparr>)
     else if (char = LF \<or> char = CR) \<and> \<not> inQuotes st then
       (let row = currentRow st @ [currentField st] in
        (if char = CR \<and> nextChar = Some LF then i + 2 else i + 1,
         st\<lparr>rows := (if keepRow row then rows st @ [row] else rows st),
            currentRow := [], currentField := []\<rparr>))
     else (i + 1, st\<lparr>currentField := currentField st @ [char]\<rparr>))"

lemma step_advances: "i < fst (step csvText i st)"
  by (simp add: step_def Let_def)

function scan_loop :: "jsstring \<Rightarrow> nat \<Rightarrow> scan \<Rightarrow> scan" where
  "scan_loop csvText i st =
     (if i < length csvText
      then (case step csvText i st of (i', st') \<Rightarrow> scan_loop csvText i' st')
      else st)"
  by pat_completeness auto
termination
  apply (relation "measure (\<lambda>(csvText, i, st). length csvText - i)")
   apply simp
  subgoal for csvText i st i' st'
    using step_advances [of i csvText st] by (cases "step csvText i st") auto
  done

text \<open>The block after the loop ("Don't forget the last field/row").\<close>

definition flush :: "scan \<Rightarrow> jsstring list list" where
  "flush st =
    (if currentField st \<noteq> [] \<or> length (currentRow st) > 0
     then (let row = currentRow st @ [currentField st]
           in if keepRow row then rows st @ [row] else rows st)
     else rows st)"

text \<open>The value of \<open>rows\<close> when \<open>parseCSV\<close> starts to read the header row.\<close>

definition parseRows :: "jsstring \<Rightarrow> jsstring list list" where
  "parseRows csvText = flush (scan_loop csvText 0 scan0)"

text \<open>The configurations \<open>(i, variables)\<close> that the loop goes through on \<open>csvText\<close>.\<close>

inductive reaches :: "jsstring \<Rightarrow> nat \<Rightarrow> scan \<Rightarrow> bool" for csvText :: jsstring where
  start: "reaches csvText 0 scan0"
| iterate: "reaches csvText i st \<Longrightarrow> i < length csvText \<Longrightarrow> step csvText i st = (i', st')
     \<Longrightarrow> reaches csvText i' st'"

text \<open>
  The content of a quoted field that is still open at the end of the input, from the
  characters after its opening quote: a doubled quote stands for one quote character,
  every other character for itself.  A quote character that is not doubled closes the
  field: then there is no such content (\<open>None\<close>).
\<close>

fun unquote :: "jsstring \<Rightarrow> jsstring option" where
  "unquote [] = Some []"
| "unquote [c] = (if c = QUOTE then None else Some [c])"
| "unquote (c # d # ds) =
     (if c = QUOTE
      then (if d = QUOTE then map_option ((#) QUOTE) (unquote ds) else None)
      else map_option ((#) c) (unquote (d # ds)))"

section \<open>Name cleaning: \<open>cleanClubName\<close> and the slug of \<open>processImage\<close>\<close>

definition isWord :: "nat \<Rightarrow> bool" where
  "isWord c = ((65 \<le> c \<and> c \<le> 90) \<or> (97 \<le> c \<and> c \<le> 122) \<or> (48 \<le> c \<and> c \<le> 57) \<or> c = 95)"

definition isLowerAlnum :: "nat \<Rightarrow> bool" where
  "isLowerAlnum c = ((97 \<le> c \<and> c \<le> 122) \<or> (48 \<le> c \<and> c \<le> 57))"

definition removeAll_re :: "(nat \<Rightarrow> bool) \<Rightarrow> jsstring \<Rightarrow> jsstring" where
  "removeAll_re cls s = filter (\<lambda>c. \<not> cls c) s"

function replaceRuns :: "(nat \<Rightarrow> bool) \<Rightarrow> nat \<Rightarrow> jsstring \<Rightarrow> jsstring" where
  "replaceRuns cls r [] = []"
| "replaceRuns cls r (c # cs) =
     (if cls c then r # replaceRuns cls r (dropWhile cls cs) else c # replaceRuns cls r cs)"
  by pat_completeness auto
termination
  by (relation "measure (\<lambda>(cls, r, s). length s)")
    (auto intro: le_imp_less_Suc length_dropWhile_le)

definition asciiLower :: "nat \<Rightarrow> nat" where
  "asciiLower c = (if 65 \<le> c \<and> c \<le> 90 then c + 32 else c)"

definition toLowerCase :: "(jsstring \<Rightarrow> jsstring) \<Rightarrow> jsstring \<Rightarrow> jsstring" where
  "toLowerCase unicodeLower s =
     (if list_all (\<lambda>c. c < 128) s then map asciiLower s else unicodeLower s)"

definition cleanClubName :: "(jsstring \<Rightarrow> jsstring) \<Rightarrow> jsstring \<Rightarrow> jsstring" where
  "cleanClubName unicodeLower name =
     take 50 (toLowerCase unicodeLower
       (replaceRuns isSpace HYPHEN
         (removeAll_re (\<lambda>c. \<not> (isWord c \<or> isSpace c \<or> c = HYPHEN)) name)))"

definition slug :: "(jsstring \<Rightarrow> jsstring) \<Rightarrow> jsstring \<Rightarrow> jsstring" where
  "slug unicodeLower clubName =
     take 50 (trim
       (replaceRuns (\<lambda>c. c = HYPHEN) HYPHEN
         (replaceRuns isSpace HYPHEN
           (removeAll_re (\<lambda>c. \<not> (isLowerAlnum c \<or> isSpace c \<or> c = HYPHEN))
             (toLowerCase unicodeLower clubName)))))"

definition slugChar :: "nat \<Rightarrow> bool" where
  "slugChar c = (isLowerAlnum c \<or> c = 95 \<or> c = HYPHEN)"

definition slugChar2 :: "nat \<Rightarrow> bool" where
  "slugChar2 c = (isLowerAlnum c \<or> c = HYPHEN)"

fun noRuns :: "(nat \<Rightarrow> bool) \<Rightarrow> jsstring \<Rightarrow> bool" where
  "noRuns cls (x # y # s) = (\<not> (cls x \<and> cls y) \<and> noRuns cls (y # s))"
| "noRuns cls s = True"

section \<open>Extraction of clubs: the second half of \<open>parseCSV\<close>\<close>

text \<open>\<open>s.split(',')\<close>; the empty string splits into one empty piece.\<close>

fun split_on :: "nat \<Rightarrow> jsstring \<Rightarrow> jsstring list" where
  "split_on sep [] = [[]]"
| "split_on sep (c # cs) =
     (if c = sep then [] # split_on sep cs
      else (case split_on sep cs of [] \<Rightarrow> [[c]] | piece # pieces \<Rightarrow> (c # piece) # pieces))"

text \<open>
  The object \<open>club\<close> built for one data row.  \<open>null\<close> is \<open>None\<close>.
\<close>

record club =
  name :: jsstring
  originalName :: jsstring
  heroImage :: "jsstring option"
  logoImage :: "jsstring option"
  galleryImages :: "jsstring list"
  submissionId :: jsstring
  email :: jsstring
  rawData :: "jsstring list"

text \<open>
  The body of the loop over the data rows, for one row \<open>values\<close>: \<open>None\<close> when the row
  is skipped (fewer than 30 columns, or the test on the three image columns fails),
  otherwise the club that is pushed.  \<open>isValidUrl\<close> is \<open>new URL(string)\<close> not throwing: the
  URL parser of the platform, a parameter here.  A string is truthy when it is not empty.
\<close>

definition extractClub ::
  "(jsstring \<Rightarrow> bool) \<Rightarrow> (jsstring \<Rightarrow> jsstring) \<Rightarrow> jsstring list \<Rightarrow> club option" where
  "extractClub isValidUrl unicodeLower values =
    (if length values < 30 then None
     else
       (let clubName = values ! 10;
            heroImage = values ! 27;
            logoImage = values ! 28;
            galleryImages = values ! 29
        in if (heroImage \<noteq> [] \<and> isValidUrl heroImage)
              \<or> (logoImage \<noteq> [] \<and> isValidUrl logoImage)
              \<or> (galleryImages \<noteq> [] \<and> trim galleryImages \<noteq> [])
           then Some
             \<lparr>name = cleanClubName unicodeLower
                       (if clubName \<noteq> [] then clubName else str ''Unknown Club''),
              originalName = clubName,
              heroImage = (if heroImage \<noteq> [] \<and> isValidUrl heroImage then Some heroImage else None),
              logoImage = (if logoImage \<noteq> [] \<and> isValidUrl logoImage then Some logoImage else None),
              galleryImages =
                (if galleryImages \<noteq> [] \<and> trim galleryImages \<noteq> []
                 then filter (\<lambda>url. url \<noteq> [] \<and> isValidUrl url)
                        (map trim (split_on COMMA galleryImages))
                 else []),
              submissionId = values ! 0,
              email = values ! 8,
              rawData = values\<rparr>
           else None))"

text \<open>The loop over the data rows, in order.\<close>

fun extractClubs ::
  "(jsstring \<Rightarrow> bool) \<Rightarrow> (jsstring \<Rightarrow> jsstring) \<Rightarrow> jsstring list list \<Rightarrow> club list" where
  "extractClubs isValidUrl unicodeLower [] = []"
| "extractClubs isValidUrl unicodeLower (values # rest) =
     (case extractClub isValidUrl unicodeLower values of
        None \<Rightarrow> extractClubs isValidUrl unicodeLower rest
      | Some c \<Rightarrow> c # extractClubs isValidUrl unicodeLower rest)"

text \<open>\<open>parseCSV\<close>: the first row is the header, the others are data rows.\<close>

definition parseCSV ::
  "(jsstring \<Rightarrow> bool) \<Rightarrow> (jsstring \<Rightarrow> jsstring) \<Rightarrow> jsstring \<Rightarrow> club list" where
  "parseCSV isValidUrl unicodeLower csvText =
    (let rows = parseRows csvText
     in if length rows < 1 then [] else extractClubs isValidUrl unicodeLower (tl rows))"

text \<open>
  A stand-in for the URL parser in the closed examples: it accepts the strings that
  start with \<open>http://\<close> or \<open>https://\<close> and a letter.  The examples apply it to such
  strings (which \<open>new URL\<close> accepts) and to strings without a scheme (which it rejects).
\<close>

definition exampleUrl :: "jsstring \<Rightarrow> bool" where
  "exampleUrl s =
    ((take 7 s = str ''http://'' \<and> 7 < length s \<and> 97 \<le> s ! 7 \<and> s ! 7 \<le> 122)
     \<or> (take 8 s = str ''https://'' \<and> 8 < length s \<and> 97 \<le> s ! 8 \<and> s ! 8 \<le> 122))"

section \<open>The image pipeline: \<open>processImageToCloudinary\<close> and the request handler\<close>

type_synonym buffer = "nat list"

text \<open>
  The image types that the handler passes: \<open>'hero'\<close>, \<open>'logo'\<close> and \<open>`gallery-${i+1}`\<close>.
\<close>

datatype imageType = Hero | Logo | Gallery nat

function showNat :: "nat \<Rightarrow> jsstring" where
  "showNat n = (if n < 10 then [48 + n] else showNat (n div 10) @ [48 + n mod 10])"
  by pat_completeness auto
termination
  by (relation "measure (\<lambda>n. n)") auto

definition typeName :: "imageType \<Rightarrow> jsstring" where
  "typeName t =
    (case t of Hero \<Rightarrow> str ''hero'' | Logo \<Rightarrow> str ''logo''
     | Gallery n \<Rightarrow> str ''gallery-'' @ showNat n)"

text \<open>
  What the code throws.  \<open>Thrown\<close> is an exception of a library call (\<open>fetch\<close>,
  \<open>response.buffer()\<close>, \<open>response.json()\<close>, \<open>sharp\<close>) with its message; the other
  constructors are the \<open>throw\<close> statements of the code and the two exceptions of the
  language that it can run into (\<open>TypeError\<close> on reading a property of \<open>undefined\<close>,
  \<open>URIError\<close> of \<open>encodeURIComponent\<close> on a lone surrogate).
\<close>

datatype error =
    CloudinaryNotConfigured
  | DownloadFailed nat
  | UploadFailed jsstring
  | Thrown jsstring
  | TypeError
  | URIError
  | SearchFailed nat
  | NoMatch
  | UpdateFailed

text \<open>
  A value of a field in the Airtable update: a string, a number, the JSON text of an
  array of strings (\<open>JSON.stringify\<close>), or an array of attachment objects \<open>{url: ...}\<close>.
\<close>

datatype fieldval = Text jsstring | Number int | JsonText "jsstring list" | Attachments "jsstring list"

type_synonym fields = "(jsstring \<times> fieldval) list"

text \<open>The HTTP requests: an image download, an Airtable search by formula, a PATCH of a record.\<close>

datatype request = GET jsstring | SEARCH jsstring | PATCH jsstring fields

text \<open>
  A parsed JSON body that is not \<open>null\<close>: \<open>.records\<close> (the ids of the records, when the
  property is there; it is taken to be an array of records with an id) and
  \<open>.error?.message\<close>.  In a response, \<open>json\<close> is what \<open>response.json()\<close> gives: an
  exception (\<open>Inl\<close>), the value \<open>null\<close> (\<open>Inr None\<close>) or a body.
\<close>

record jsonBody =
  recordsOf :: "jsstring list option"
  errorMessageOf :: "jsstring option"

record response =
  ok :: bool
  status :: nat
  buffer :: "jsstring + buffer"
  json :: "jsstring + jsonBody option"

record uploadResult =
  secure_url :: jsstring
  public_id :: jsstring
  resultWidth :: nat
  resultHeight :: nat

text \<open>
  The world outside the program, of any type \<open>'w\<close>: \<open>fetch\<close> and the Cloudinary upload
  answer (or throw, \<open>Inl\<close>) and change it; \<open>sharp\<close> resizes and re-encodes a buffer;
  \<open>now\<close> is \<open>new Date().toISOString()\<close>; the two flags say whether the environment
  variables of Cloudinary and of Airtable are set.
\<close>

record 'w externals =
  fetch :: "'w \<Rightarrow> request \<Rightarrow> (jsstring + response) \<times> 'w"
  sharp :: "buffer \<Rightarrow> nat \<Rightarrow> jsstring + buffer"
  upload_stream :: "'w \<Rightarrow> jsstring \<Rightarrow> imageType \<Rightarrow> buffer \<Rightarrow> (jsstring + uploadResult) \<times> 'w"
  now :: "'w \<Rightarrow> jsstring"
  cloudinaryConfigured :: bool
  airtableConfigured :: bool

text \<open>\<open>generateAltText\<close> of the server files.\<close>

definition asciiUpper :: "nat \<Rightarrow> nat" where
  "asciiUpper c = (if 97 \<le> c \<and> c \<le> 122 then c - 32 else c)"

text \<open>\<open>.replace(/\b\w/g, l => l.toUpperCase())\<close>: \<open>afterWord\<close> says that a word character precedes.\<close>

fun capitalizeWords :: "bool \<Rightarrow> jsstring \<Rightarrow> jsstring" where
  "capitalizeWords afterWord [] = []"
| "capitalizeWords afterWord (c # cs) =
     (if isWord c \<and> \<not> afterWord then asciiUpper c else c) # capitalizeWords (isWord c) cs"

definition generateAltText :: "jsstring \<Rightarrow> imageType \<Rightarrow> jsstring" where
  "generateAltText clubName imageType =
    (let properClubName =
           capitalizeWords False (map (\<lambda>c. if c = HYPHEN then 32 else c) clubName)
     in case imageType of
          Hero \<Rightarrow> properClubName @ str '' hero image''
        | Logo \<Rightarrow> properClubName @ str '' logo''
        | Gallery n \<Rightarrow>
            if 1 \<le> n \<and> n \<le> 4 then properClubName @ str '' group photo''
            else properClubName @ str '' image'')"

text \<open>The object that \<open>processImageToCloudinary\<close> resolves to.\<close>

record processed =
  originalUrl :: jsstring
  cloudinaryUrl :: jsstring
  publicId :: jsstring
  filename :: jsstring
  altText :: jsstring
  width :: nat
  height :: nat
  type :: imageType
  format :: jsstring

text \<open>The \<open>public_id\<close> under which an image is uploaded.\<close>

definition storageKey :: "jsstring \<Rightarrow> imageType \<Rightarrow> jsstring" where
  "storageKey clubName imageType = str ''joinphilly/'' @ clubName @ str ''-'' @ typeName imageType"

definition processImageToCloudinary ::
  "'w externals \<Rightarrow> 'w \<Rightarrow> jsstring \<Rightarrow> jsstring \<Rightarrow> imageType \<Rightarrow> nat \<Rightarrow> (error + processed) \<times> 'w" where
  "processImageToCloudinary X w imageUrl clubName imageType targetWidth =
    (if \<not> cloudinaryConfigured X then (Inl CloudinaryNotConfigured, w)
     else
       (case fetch X w (GET imageUrl) of
          (Inl e, w1) \<Rightarrow> (Inl (Thrown e), w1)
        | (Inr response, w1) \<Rightarrow>
            if \<not> ok response then (Inl (DownloadFailed (status response)), w1)
            else
              (case buffer response of
                 Inl e \<Rightarrow> (Inl (Thrown e), w1)
               | Inr imageBuffer \<Rightarrow>
                   (case sharp X imageBuffer targetWidth of
                      Inl e \<Rightarrow> (Inl (Thrown e), w1)
                    | Inr processedBuffer \<Rightarrow>
                        (case upload_stream X w1 (storageKey clubName imageType) imageType
                                processedBuffer of
                           (Inl e, w2) \<Rightarrow> (Inl (UploadFailed e), w2)
                         | (Inr result, w2) \<Rightarrow>
                             (Inr \<lparr>originalUrl = imageUrl,
                                   cloudinaryUrl = secure_url result,
                                   publicId = public_id result,
                                   filename = clubName @ str ''-'' @ typeName imageType @ str ''.webp'',
                                   altText = generateAltText clubName imageType,
                                   width = resultWidth result,
                                   height = resultHeight result,
                                   type = imageType,
                                   format = str ''webp''\<rparr>, w2))))))"

text \<open>
  An entry of \<open>clubResult.errors\<close> is the string \<open>`${label}: ${error.message}`\<close>, kept
  here as the pair of its label and the error.
\<close>

datatype errorLabel = HeroImage | LogoImage | GalleryImage nat | AirtableUpdateFailed

record airtableUpdate =
  success :: bool
  recordId :: jsstring
  fieldsUpdated :: nat

text \<open>The object \<open>clubResult\<close> of the handler.\<close>

record clubResult =
  name :: jsstring
  cleanName :: jsstring
  submissionId :: jsstring
  email :: jsstring
  processed :: "processed list"
  errors :: "(errorLabel \<times> error) list"
  cloudinaryUrls :: "jsstring list"
  airtableUpdate :: "airtableUpdate option"

text \<open>One \<open>try { ... } catch (error) { ... }\<close> block around a call of \<open>processImageToCloudinary\<close>.\<close>

definition trySlot ::
  "'w externals \<Rightarrow> errorLabel \<Rightarrow> jsstring \<Rightarrow> jsstring \<Rightarrow> imageType \<Rightarrow> nat
     \<Rightarrow> clubResult \<times> 'w \<Rightarrow> clubResult \<times> 'w" where
  "trySlot X label imageUrl clubName imageType targetWidth s =
    (case s of (r, w) \<Rightarrow>
       (case processImageToCloudinary X w imageUrl clubName imageType targetWidth of
          (Inr p, w') \<Rightarrow>
            (r\<lparr>processed := processed r @ [p],
               cloudinaryUrls := cloudinaryUrls r @ [cloudinaryUrl p]\<rparr>, w')
        | (Inl e, w') \<Rightarrow> (r\<lparr>errors := errors r @ [(label, e)]\<rparr>, w')))"

text \<open>\<open>for (let i = 0; i < club.galleryImages.length && i < 4; i++)\<close>\<close>

function galleryLoop :: "'w externals \<Rightarrow> club \<Rightarrow> nat \<Rightarrow> clubResult \<times> 'w \<Rightarrow> clubResult \<times> 'w" where
  "galleryLoop X c i s =
    (if i < length (galleryImages c) \<and> i < 4
     then galleryLoop X c (i + 1)
            (let galleryUrl = galleryImages c ! i
             in if galleryUrl \<noteq> []
                then trySlot X (GalleryImage (i + 1)) galleryUrl (club.name c) (Gallery (i + 1)) 1200 s
                else s)
     else s)"
  by pat_completeness auto
termination
  by (relation "measure (\<lambda>(X, c, i, s). 4 - i)") auto

text \<open>The body of \<open>for (const club of clubs)\<close>.\<close>

definition processClub :: "'w externals \<Rightarrow> 'w \<Rightarrow> club \<Rightarrow> clubResult \<times> 'w" where
  "processClub X w c =
    (let r0 = \<lparr>name = originalName c, cleanName = club.name c,
               submissionId = club.submissionId c, email = club.email c,
               processed = [], errors = [], cloudinaryUrls = [], airtableUpdate = None\<rparr>;
         s1 = (case heroImage c of
                 Some u \<Rightarrow> if u \<noteq> [] then trySlot X HeroImage u (club.name c) Hero 1600 (r0, w)
                           else (r0, w)
               | None \<Rightarrow> (r0, w));
         s2 = (case logoImage c of
                 Some u \<Rightarrow> if u \<noteq> [] then trySlot X LogoImage u (club.name c) Logo 400 s1 else s1
               | None \<Rightarrow> s1)
     in galleryLoop X c 0 s2)"

fun processClubs :: "'w externals \<Rightarrow> 'w \<Rightarrow> club list \<Rightarrow> clubResult list \<times> 'w" where
  "processClubs X w [] = ([], w)"
| "processClubs X w (c # rest) =
     (case processClub X w c of (r, w1) \<Rightarrow>
        (case processClubs X w1 rest of (rs, w2) \<Rightarrow> (r # rs, w2)))"

text \<open>
  The number of populated slots of a club: the hero image and the logo image when they
  are there, and the non-empty entries among the first four gallery images.
\<close>

definition populatedSlots :: "club \<Rightarrow> nat" where
  "populatedSlots c =
    (case heroImage c of None \<Rightarrow> 0 | Some u \<Rightarrow> if u \<noteq> [] then 1 else 0)
    + (case logoImage c of None \<Rightarrow> 0 | Some u \<Rightarrow> if u \<noteq> [] then 1 else 0)
    + length (filter (\<lambda>u. u \<noteq> []) (take 4 (galleryImages c)))"

text \<open>The number of slots of a result that are settled: processed, or failed with an error.\<close>

definition settled :: "clubResult \<Rightarrow> nat" where
  "settled r = length (processed r) + length (errors r)"

text \<open>
  A slot of a club that is populated: the label of its errors, the URL, the image type
  and the target width.  The slots of a club in the order of the handler: the hero
  image, the logo image, and the first four gallery images, each if it has a URL.
\<close>

type_synonym slot = "errorLabel \<times> jsstring \<times> imageType \<times> nat"

definition slots :: "club \<Rightarrow> slot list" where
  "slots c =
    (case heroImage c of
       None \<Rightarrow> []
     | Some u \<Rightarrow> if u \<noteq> [] then [(HeroImage, u, Hero, 1600)] else [])
    @ (case logoImage c of
         None \<Rightarrow> []
       | Some u \<Rightarrow> if u \<noteq> [] then [(LogoImage, u, Logo, 400)] else [])
    @ concat (map (\<lambda>i. if galleryImages c ! i \<noteq> []
                        then [(GalleryImage (i + 1), galleryImages c ! i, Gallery (i + 1), 1200)]
                        else [])
                [0 ..< min 4 (length (galleryImages c))])"

text \<open>
  Modelled from the spec: failure isolation.  "Each slot's failure is caught and
  recorded in \<open>slotErrors\<close>; it never aborts processing of sibling slots or subsequent
  Submissions."  Every slot is attempted in turn, whatever the outcome of the slots
  before it; the outcomes are kept in the order of the slots.
\<close>

fun attemptAll ::
  "'w externals \<Rightarrow> jsstring \<Rightarrow> 'w \<Rightarrow> slot list \<Rightarrow> (errorLabel \<times> (error + processed)) list \<times> 'w" where
  "attemptAll X clubName w [] = ([], w)"
| "attemptAll X clubName w ((label, imageUrl, imageType, targetWidth) # rest) =
     (case processImageToCloudinary X w imageUrl clubName imageType targetWidth of
        (outcome, w1) \<Rightarrow>
          (case attemptAll X clubName w1 rest of
             (outcomes, w2) \<Rightarrow> ((label, outcome) # outcomes, w2)))"

text \<open>The assets among the outcomes, and the errors among them with their labels, in order.\<close>

definition successes :: "(errorLabel \<times> (error + processed)) list \<Rightarrow> processed list" where
  "successes outcomes =
    concat (map (\<lambda>x. case snd x of Inl e \<Rightarrow> [] | Inr p \<Rightarrow> [p]) outcomes)"

definition failures :: "(errorLabel \<times> (error + processed)) list \<Rightarrow> (errorLabel \<times> error) list" where
  "failures outcomes =
    concat (map (\<lambda>x. case snd x of Inl e \<Rightarrow> [(fst x, e)] | Inr p \<Rightarrow> []) outcomes)"

text \<open>A result to which the outcomes of further slots are added.\<close>

definition recordOutcomes :: "clubResult \<Rightarrow> (errorLabel \<times> (error + processed)) list \<Rightarrow> clubResult" where
  "recordOutcomes r outcomes =
    r\<lparr>processed := processed r @ successes outcomes,
      errors := errors r @ failures outcomes,
      cloudinaryUrls := cloudinaryUrls r @ map cloudinaryUrl (successes outcomes)\<rparr>"

text \<open>The gallery slots from index \<open>i\<close> on.\<close>

definition gallerySlotsFrom :: "club \<Rightarrow> nat \<Rightarrow> slot list" where
  "gallerySlotsFrom c i =
    concat (map (\<lambda>i. if galleryImages c ! i \<noteq> []
                        then [(GalleryImage (i + 1), galleryImages c ! i, Gallery (i + 1), 1200)]
                        else [])
                [i ..< min 4 (length (galleryImages c))])"

section \<open>Reconciliation with Airtable: \<open>updateAirtableRecord\<close>\<close>

text \<open>\<open>s.replace(/"/g, '\\"')\<close>: a backslash before every quote.\<close>

definition escapeQuotes :: "jsstring \<Rightarrow> jsstring" where
  "escapeQuotes s = concat (map (\<lambda>c. if c = QUOTE then [92, QUOTE] else [c]) s)"

definition submissionIdFilter :: "jsstring \<Rightarrow> jsstring" where
  "submissionIdFilter sid = str ''{Submission ID} = \"'' @ escapeQuotes sid @ str ''\"''"

definition nameFilter :: "jsstring \<Rightarrow> jsstring" where
  "nameFilter nameToTry = str ''{Name} = \"'' @ escapeQuotes nameToTry @ str ''\"''"

text \<open>
  \<open>encodeURIComponent\<close> throws a \<open>URIError\<close> on a string with a lone surrogate, and on
  no other string.
\<close>

fun wellFormed :: "jsstring \<Rightarrow> bool" where
  "wellFormed [] = True"
| "wellFormed (c # cs) =
     (if 55296 \<le> c \<and> c \<le> 56319
      then (case cs of [] \<Rightarrow> False | d # ds \<Rightarrow> 56320 \<le> d \<and> d \<le> 57343 \<and> wellFormed ds)
      else if 56320 \<le> c \<and> c \<le> 57343 then False
      else wellFormed cs)"

text \<open>
  The variables \<open>searchResponse\<close> and \<open>searchData\<close> (\<open>undefined\<close> is \<open>None\<close>; of
  \<open>searchData\<close> the ids of its \<open>records\<close> are kept), the world, and the exchanges so far:
  each request passed to \<open>fetch\<close> with what \<open>fetch\<close> answered, in order.
\<close>

record 'w lookup =
  searchResponse :: "response option"
  searchData :: "jsstring list option"
  sent :: "(request \<times> (jsstring + response)) list"
  world :: 'w

text \<open>
  One search: the \<open>fetch\<close> with the formula and the \<open>if (searchResponse.ok) { ... }\<close>
  after it.  The first component is the exception, if one is thrown.
\<close>

definition doSearch :: "'w externals \<Rightarrow> jsstring \<Rightarrow> 'w lookup \<Rightarrow> error option \<times> 'w lookup" where
  "doSearch X formula lk =
    (if \<not> wellFormed formula then (Some URIError, lk)
     else
       (case fetch X (world lk) (SEARCH formula) of
          (Inl e, w') \<Rightarrow>
            (Some (Thrown e), lk\<lparr>sent := sent lk @ [(SEARCH formula, Inl e)], world := w'\<rparr>)
        | (Inr r, w') \<Rightarrow>
            (let lk' = lk\<lparr>searchResponse := Some r,
                          sent := sent lk @ [(SEARCH formula, Inr r)], world := w'\<rparr>
             in if ok r
                then (case json r of
                        Inl e \<Rightarrow> (Some (Thrown e), lk')
                      | Inr None \<Rightarrow> (Some TypeError, lk')
                      | Inr (Some body) \<Rightarrow>
                          (case recordsOf body of
                             None \<Rightarrow> (Some TypeError, lk')
                           | Some ids \<Rightarrow> (None, lk'\<lparr>searchData := Some ids\<rparr>)))
                else (None, lk'))))"

text \<open>\<open>!searchData || searchData.records.length === 0\<close>\<close>

definition nothingFound :: "'w lookup \<Rightarrow> bool" where
  "nothingFound lk = (case searchData lk of None \<Rightarrow> True | Some ids \<Rightarrow> ids = [])"

text \<open>
  \<open>for (const nameToTry of names)\<close>; the loop breaks after a response that is ok and has
  records.
\<close>

fun nameLoop :: "'w externals \<Rightarrow> jsstring list \<Rightarrow> 'w lookup \<Rightarrow> error option \<times> 'w lookup" where
  "nameLoop X [] lk = (None, lk)"
| "nameLoop X (nameToTry # rest) lk =
     (case doSearch X (nameFilter nameToTry) lk of
        (Some e, lk') \<Rightarrow> (Some e, lk')
      | (None, lk') \<Rightarrow>
          if (case searchResponse lk' of None \<Rightarrow> False | Some r \<Rightarrow> ok r) \<and> \<not> nothingFound lk'
          then (None, lk')
          else nameLoop X rest lk')"

definition nonBlank :: "jsstring \<Rightarrow> bool" where
  "nonBlank s = (s \<noteq> [] \<and> trim s \<noteq> [])"

text \<open>The two server files that update Airtable.\<close>

datatype variant = CleanServer | WebhookServer

text \<open>
  \<open>if (!searchResponse.ok) { ... }\<close> for a response that is not ok.  The first server
  file reads \<open>errorData.error?.message\<close>, a \<open>TypeError\<close> when the body is \<open>null\<close> (an
  exception of \<open>json()\<close> is caught and replaced by an object); the webhook server file
  does not read \<open>errorData\<close>.
\<close>

definition searchFailure :: "variant \<Rightarrow> response \<Rightarrow> error" where
  "searchFailure v resp =
    (case v of
       CleanServer \<Rightarrow>
         (case json resp of
            Inl e \<Rightarrow> SearchFailed (status resp)
          | Inr None \<Rightarrow> TypeError
          | Inr (Some errorData) \<Rightarrow> SearchFailed (status resp))
     | WebhookServer \<Rightarrow> SearchFailed (status resp))"

text \<open>
  "Check if we found anything": the two \<open>if\<close> statements after the searches and
  \<open>const recordId = searchData.records[0].id\<close>.  Reading \<open>searchResponse.ok\<close> when no
  search was made is a \<open>TypeError\<close>.
\<close>

definition checkFound :: "variant \<Rightarrow> 'w lookup \<Rightarrow> error + jsstring" where
  "checkFound v lk =
    (case searchResponse lk of
       None \<Rightarrow> Inl TypeError
     | Some resp \<Rightarrow>
         if \<not> ok resp then Inl (searchFailure v resp)
         else (case searchData lk of
                 None \<Rightarrow> Inl NoMatch
               | Some [] \<Rightarrow> Inl NoMatch
               | Some (rid # others) \<Rightarrow> Inr rid))"

text \<open>
  The search part of \<open>updateAirtableRecord\<close>, up to \<open>const recordId = ...\<close>: the id of
  the record found (\<open>rid\<close>), or the exception.
\<close>

definition findRecord ::
  "variant \<Rightarrow> 'w externals \<Rightarrow> 'w \<Rightarrow> clubResult \<Rightarrow> (error + jsstring) \<times> 'w lookup" where
  "findRecord v X w r =
    (let lk0 = \<lparr>searchResponse = None, searchData = None, sent = [], world = w\<rparr>;
         s1 = (if nonBlank (clubResult.submissionId r)
               then doSearch X (submissionIdFilter (clubResult.submissionId r)) lk0
               else (None, lk0))
     in case s1 of
          (Some e, lk1) \<Rightarrow> (Inl e, lk1)
        | (None, lk1) \<Rightarrow>
            (let s2 = (if nothingFound lk1
                       then (if nonBlank (clubResult.name r)
                             then nameLoop X (filter nonBlank [clubResult.name r, cleanName r]) lk1
                             else (None, lk1))
                       else (None, lk1))
             in case s2 of
                  (Some e, lk2) \<Rightarrow> (Inl e, lk2)
                | (None, lk2) \<Rightarrow> (checkFound v lk2, lk2)))"

text \<open>\<open>updateFields[key] = v\<close> on an object: a key keeps its place, a new key goes last.\<close>

fun setField :: "jsstring \<Rightarrow> fieldval \<Rightarrow> fields \<Rightarrow> fields" where
  "setField k v [] = [(k, v)]"
| "setField k v ((k', v') # fs) = (if k = k' then (k, v) # fs else (k', v') # setField k v fs)"

text \<open>\<open>galleryUrls[i] = url\<close> on an array: the array grows, with holes, up to index \<open>i\<close>.\<close>

definition setAt :: "nat \<Rightarrow> jsstring \<Rightarrow> jsstring option list \<Rightarrow> jsstring option list" where
  "setAt i url a = (a @ replicate (Suc i - length a) None)[i := Some url]"

text \<open>\<open>galleryUrls.filter(url => url)\<close>: holes and empty strings are left out.\<close>

definition definedUrls :: "jsstring option list \<Rightarrow> jsstring list" where
  "definedUrls a = concat (map (\<lambda>x. case x of None \<Rightarrow> [] | Some url \<Rightarrow> if url \<noteq> [] then [url] else []) a)"

text \<open>The \<open>switch (processed.type)\<close> for one element of \<open>clubResult.processed\<close>.\<close>

definition addProcessed :: "processed \<Rightarrow> fields \<times> jsstring option list \<Rightarrow> fields \<times> jsstring option list" where
  "addProcessed p s =
    (case s of (updateFields, galleryUrls) \<Rightarrow>
       (case type p of
          Hero \<Rightarrow>
            (setField (str ''Hero Alt Text'') (Text (altText p))
               (setField (str ''Hero URL'') (Text (cloudinaryUrl p)) updateFields), galleryUrls)
        | Logo \<Rightarrow>
            (setField (str ''Logo Alt Text'') (Text (altText p))
               (setField (str ''Logo URL'') (Text (cloudinaryUrl p)) updateFields), galleryUrls)
        | Gallery n \<Rightarrow>
            if n = 1 then (setField (str ''Gallery 1 Alt Text'') (Text (altText p)) updateFields,
                           setAt 0 (cloudinaryUrl p) galleryUrls)
            else if n = 2 then (setField (str ''Gallery 2 Alt Text'') (Text (altText p)) updateFields,
                           setAt 1 (cloudinaryUrl p) galleryUrls)
            else if n = 3 then (setField (str ''Gallery 3 Alt Text'') (Text (altText p)) updateFields,
                           setAt 2 (cloudinaryUrl p) galleryUrls)
            else if n = 4 then (setField (str ''Gallery 4 Alt Text'') (Text (altText p)) updateFields,
                           setAt 3 (cloudinaryUrl p) galleryUrls)
            else (updateFields, galleryUrls)))"

fun addAllProcessed :: "processed list \<Rightarrow> fields \<times> jsstring option list \<Rightarrow> fields \<times> jsstring option list" where
  "addAllProcessed [] s = s"
| "addAllProcessed (p # ps) s = addAllProcessed ps (addProcessed p s)"

text \<open>
  The update payload of the first server file (part_000, lines 453-494); \<open>timestamp\<close> is
  \<open>new Date().toISOString()\<close>.
\<close>

definition buildUpdateFields :: "jsstring \<Rightarrow> processed list \<Rightarrow> fields" where
  "buildUpdateFields timestamp ps =
    (case addAllProcessed ps ([], []) of (updateFields, galleryUrls) \<Rightarrow>
       setField (str ''Processed'') (Number 1)
         (setField (str ''Last Modified'') (Text timestamp)
           (setField (str ''Status'') (Text (str ''Images Processed''))
             (if galleryUrls \<noteq> []
              then setField (str ''Gallery URLs (JSON)'') (JsonText (definedUrls galleryUrls)) updateFields
              else updateFields))))"

text \<open>The update payload of the webhook server file (part_001, lines 650-683).\<close>

definition buildUpdateFields_webhook :: "processed list \<Rightarrow> fields" where
  "buildUpdateFields_webhook ps =
    (case addAllProcessed ps ([], []) of (updateFields, galleryUrls) \<Rightarrow>
       if galleryUrls \<noteq> []
       then setField (str ''Photo Gallery Url'') (Attachments (definedUrls galleryUrls)) updateFields
       else updateFields)"

definition updatePayload :: "variant \<Rightarrow> jsstring \<Rightarrow> processed list \<Rightarrow> fields" where
  "updatePayload v timestamp ps =
    (case v of CleanServer \<Rightarrow> buildUpdateFields timestamp ps
     | WebhookServer \<Rightarrow> buildUpdateFields_webhook ps)"

text \<open>
  \<open>updateAirtableRecord\<close>: the search, then the PATCH of the record found.  The result
  comes with the exchanges and the new world.  After a PATCH that is not ok, both
  server files read \<open>errorData.error?.message\<close>: a \<open>TypeError\<close> when the body is \<open>null\<close>.
\<close>

definition updateAirtableRecord ::
  "variant \<Rightarrow> 'w externals \<Rightarrow> 'w \<Rightarrow> clubResult
     \<Rightarrow> (error + airtableUpdate) \<times> (request \<times> (jsstring + response)) list \<times> 'w" where
  "updateAirtableRecord v X w r =
    (case findRecord v X w r of
       (Inl e, lk) \<Rightarrow> (Inl e, sent lk, world lk)
     | (Inr rid, lk) \<Rightarrow>
         (let updateFields = updatePayload v (now X (world lk)) (processed r);
              req = PATCH rid updateFields
          in case fetch X (world lk) req of
               (Inl e, w') \<Rightarrow> (Inl (Thrown e), sent lk @ [(req, Inl e)], w')
             | (Inr updateResponse, w') \<Rightarrow>
                 (let exchanges = sent lk @ [(req, Inr updateResponse)]
                  in if \<not> ok updateResponse
                     then (case json updateResponse of
                             Inl e \<Rightarrow> (Inl (Thrown e), exchanges, w')
                           | Inr None \<Rightarrow> (Inl TypeError, exchanges, w')
                           | Inr (Some errorData) \<Rightarrow> (Inl UpdateFailed, exchanges, w'))
                     else (case json updateResponse of
                             Inl e \<Rightarrow> (Inl (Thrown e), exchanges, w')
                           | Inr updateData \<Rightarrow>
                               (Inr \<lparr>success = True, recordId = rid,
                                     fieldsUpdated = length updateFields\<rparr>, exchanges, w')))))"

text \<open>
  The second loop of the handler: \<open>for (const result of results)\<close>, with its
  \<open>try\<close>/\<open>catch\<close> around \<open>updateAirtableRecord\<close>.
\<close>

definition reconcileResult :: "variant \<Rightarrow> 'w externals \<Rightarrow> 'w \<Rightarrow> clubResult \<Rightarrow> clubResult \<times> 'w" where
  "reconcileResult v X w r =
    (if processed r \<noteq> []
     then (case updateAirtableRecord v X w r of
             (Inr u, exchanges, w') \<Rightarrow> (r\<lparr>airtableUpdate := Some u\<rparr>, w')
           | (Inl e, exchanges, w') \<Rightarrow> (r\<lparr>errors := errors r @ [(AirtableUpdateFailed, e)]\<rparr>, w'))
     else (r, w))"

fun reconcileResults :: "variant \<Rightarrow> 'w externals \<Rightarrow> 'w \<Rightarrow> clubResult list \<Rightarrow> clubResult list \<times> 'w" where
  "reconcileResults v X w [] = ([], w)"
| "reconcileResults v X w (r # rest) =
     (case reconcileResult v X w r of (r', w1) \<Rightarrow>
        (case reconcileResults v X w1 rest of (rs, w2) \<Rightarrow> (r' # rs, w2)))"

text \<open>
  The handler of \<open>POST /api/process-images\<close>, from the parsed clubs on: the answer
  with status 400 when there is no club (\<open>Inl\<close>, with its message), otherwise the
  results.
\<close>

definition processImagesHandler ::
  "variant \<Rightarrow> 'w externals \<Rightarrow> 'w \<Rightarrow> club list \<Rightarrow> (jsstring + clubResult list) \<times> 'w" where
  "processImagesHandler v X w clubs =
    (if length clubs = 0 then (Inl (str ''No clubs with images found in CSV''), w)
     else
       (case processClubs X w clubs of (results, w1) \<Rightarrow>
          if airtableConfigured X
          then (case reconcileResults v X w1 results of (results', w2) \<Rightarrow> (Inr results', w2))
          else (Inr results, w1)))"

text \<open>
  Modelled from the spec: the external record store, which is not part of the
  repository.  "The update is a single partial-field write (not a full-record replace):
  fields not in the update map are left untouched."  A record is a map from field
  names to values; a PATCH overrides the fields of the payload.
\<close>

definition patchRecord :: "(jsstring \<rightharpoonup> fieldval) \<Rightarrow> fields \<Rightarrow> (jsstring \<rightharpoonup> fieldval)" where
  "patchRecord record_fields updateFields = record_fields ++ map_of updateFields"

section \<open>A destination store for the examples\<close>

text \<open>
  Modelled from the spec: the destination store, which is not part of the repository.
  It is "path-addressed", "accepting raw encoded bytes and a storage key", and
  publishing again under a key "overwrites the same storage key rather than creating a
  duplicate".  The world is the store, a map from keys to bytes; an upload always
  succeeds; \<open>fetch\<close> and \<open>sharp\<close> are any functions that leave the store alone.
\<close>

definition storeUpload ::
  "(jsstring \<rightharpoonup> buffer) \<Rightarrow> jsstring \<Rightarrow> imageType \<Rightarrow> buffer
     \<Rightarrow> (jsstring + uploadResult) \<times> (jsstring \<rightharpoonup> buffer)" where
  "storeUpload store key t bytes =
    (Inr \<lparr>secure_url = str ''https://cdn.example/'' @ key, public_id = key,
          resultWidth = 0, resultHeight = 0\<rparr>,
     store(key \<mapsto> bytes))"

definition storeExternals ::
  "(request \<Rightarrow> jsstring + response) \<Rightarrow> (buffer \<Rightarrow> nat \<Rightarrow> jsstring + buffer)
     \<Rightarrow> (jsstring \<rightharpoonup> buffer) externals" where
  "storeExternals answer resize =
    \<lparr>fetch = (\<lambda>store req. (answer req, store)),
     sharp = resize,
     upload_stream = storeUpload,
     now = (\<lambda>store. str ''2024-01-01T00:00:00.000Z''),
     cloudinaryConfigured = True,
     airtableConfigured = True\<rparr>"

text \<open>A server for the examples: every download succeeds and gives the bytes of the URL itself.\<close>

definition echo :: "request \<Rightarrow> jsstring + response" where
  "echo req =
    (case req of
       GET url \<Rightarrow> Inr \<lparr>ok = True, status = 200, buffer = Inr url, json = Inl (str ''no JSON'')\<rparr>
     | SEARCH formula \<Rightarrow> Inl (str ''unreachable'')
     | PATCH rid updateFields \<Rightarrow> Inl (str ''unreachable''))"

text \<open>The same server, except that the download of \<open>https://a/hero\<close> is answered with status 404.\<close>

definition heroDown :: "request \<Rightarrow> jsstring + response" where
  "heroDown req =
    (if req = GET (str ''https://a/hero'')
     then Inr \<lparr>ok = False, status = 404, buffer = Inl (str ''no body''), json = Inl (str ''no JSON'')\<rparr>
     else echo req)"

section \<open>The fallback chain of the search\<close>

text \<open>The formulas of the search requests among the exchanges, in order.\<close>

definition searchesOf :: "(request \<times> (jsstring + response)) list \<Rightarrow> jsstring list" where
  "searchesOf exchanges =
    concat (map (\<lambda>x. case fst x of SEARCH formula \<Rightarrow> [formula] | GET url \<Rightarrow> []
                      | PATCH rid updateFields \<Rightarrow> []) exchanges)"

text \<open>An answer is a match when it is ok and its JSON body has at least one record.\<close>

definition isMatch :: "jsstring + response \<Rightarrow> bool" where
  "isMatch reply =
    (case reply of
       Inl e \<Rightarrow> False
     | Inr r \<Rightarrow>
         ok r \<and> (case json r of
                   Inl e \<Rightarrow> False
                 | Inr None \<Rightarrow> False
                 | Inr (Some body) \<Rightarrow>
                     (case recordsOf body of None \<Rightarrow> False | Some ids \<Rightarrow> ids \<noteq> [])))"

text \<open>
  An answer is a miss when the search can go on after it: it is not ok, or it is ok
  and its JSON body has an empty array of records.  An answer that is neither a match
  nor a miss makes the code throw.
\<close>

definition isMiss :: "jsstring + response \<Rightarrow> bool" where
  "isMiss reply =
    (case reply of
       Inl e \<Rightarrow> False
     | Inr r \<Rightarrow>
         \<not> ok r \<or> (case json r of
                     Inl e \<Rightarrow> False
                   | Inr None \<Rightarrow> False
                   | Inr (Some body) \<Rightarrow> recordsOf body = Some []))"

text \<open>The id of the first record of a match.\<close>

definition matchedId :: "jsstring + response \<Rightarrow> jsstring option" where
  "matchedId reply =
    (case reply of
       Inl e \<Rightarrow> None
     | Inr r \<Rightarrow>
         if ok r
         then (case json r of
                 Inl e \<Rightarrow> None
               | Inr None \<Rightarrow> None
               | Inr (Some body) \<Rightarrow>
                   (case recordsOf body of None \<Rightarrow> None | Some [] \<Rightarrow> None
                    | Some (rid # others) \<Rightarrow> Some rid))
         else None)"

text \<open>
  The state of the search after a match: the response is ok and \<open>searchData\<close> begins
  with the record of the match.
\<close>

definition foundBy :: "'w lookup \<Rightarrow> (jsstring + response) \<Rightarrow> bool" where
  "foundBy lk reply =
    ((\<exists>resp. searchResponse lk = Some resp \<and> ok resp)
     \<and> (\<exists>others. searchData lk = Some (the (matchedId reply) # others)))"

text \<open>
  The chain of section 4.5 of the spec for a result: the identifier query if the
  submission id is not blank, then the query on the display name, then the query on
  the cleaned name (the last two in the \<open>Name\<close> field, as the code has them, and only if
  the display name is not blank).
\<close>

definition fallbackChain :: "clubResult \<Rightarrow> jsstring list" where
  "fallbackChain r =
    (if nonBlank (clubResult.submissionId r)
     then [submissionIdFilter (clubResult.submissionId r)] else [])
    @ (if nonBlank (clubResult.name r)
       then map nameFilter (filter nonBlank [clubResult.name r, cleanName r]) else [])"

text \<open>
  Exchanges that follow a chain of formulas: searches with these formulas, in order,
  that end with the chain, with an exception, or with the first match.
\<close>

fun wellChained :: "jsstring list \<Rightarrow> (request \<times> (jsstring + response)) list \<Rightarrow> bool" where
  "wellChained formulas [] = True"
| "wellChained [] (x # exchanges) = False"
| "wellChained (formula # formulas) (x # exchanges) =
     (fst x = SEARCH formula \<and> (if isMatch (snd x) then exchanges = [] else wellChained formulas exchanges))"

text \<open>
  The ordered fallback chain, in the words of the spec ("an ordered fallback chain,
  stopping at first hit"), run against the outside world: the formulas are searched
  for in order; after a miss the next formula is tried; the run stops at the first
  answer that is not a miss (a match, or one on which the code throws), at a formula
  that cannot be encoded, or at the end of the chain.
\<close>

fun chainRun ::
  "'w externals \<Rightarrow> 'w \<Rightarrow> jsstring list \<Rightarrow> (request \<times> (jsstring + response)) list \<times> 'w" where
  "chainRun X w [] = ([], w)"
| "chainRun X w (formula # formulas) =
     (if \<not> wellFormed formula then ([], w)
      else (case fetch X w (SEARCH formula) of
              (reply, w1) \<Rightarrow>
                if isMiss reply
                then (case chainRun X w1 formulas of
                        (exchanges, w2) \<Rightarrow> ((SEARCH formula, reply) # exchanges, w2))
                else ([(SEARCH formula, reply)], w1)))"

text \<open>
  An Airtable for the examples: the table has one record, \<open>rec1\<close>, whose \<open>Name\<close> is \<open>a\<close>;
  a PATCH succeeds.
\<close>

definition oneRecordTable :: "request \<Rightarrow> jsstring + response" where
  "oneRecordTable req =
    (case req of
       GET url \<Rightarrow> echo req
     | SEARCH formula \<Rightarrow>
         Inr \<lparr>ok = True, status = 200, buffer = Inl (str ''not an image''),
              json = Inr (Some \<lparr>recordsOf = Some (if formula = nameFilter (str ''a'') then [str ''rec1''] else []),
                                errorMessageOf = None\<rparr>)\<rparr>
     | PATCH rid updateFields \<Rightarrow>
         Inr \<lparr>ok = True, status = 200, buffer = Inl (str ''not an image''),
              json = Inr (Some \<lparr>recordsOf = None, errorMessageOf = None\<rparr>)\<rparr>)"

section \<open>The fields of the update, by slot\<close>

text \<open>
  The fields that the \<open>switch\<close> writes for an image type, the aggregate gallery field
  and the marker fields of each of the two server files.
\<close>

definition slotFields :: "imageType \<Rightarrow> jsstring list" where
  "slotFields t =
    (case t of
       Hero \<Rightarrow> [str ''Hero URL'', str ''Hero Alt Text'']
     | Logo \<Rightarrow> [str ''Logo URL'', str ''Logo Alt Text'']
     | Gallery n \<Rightarrow>
         if n = 1 then [str ''Gallery 1 Alt Text'']
         else if n = 2 then [str ''Gallery 2 Alt Text'']
         else if n = 3 then [str ''Gallery 3 Alt Text'']
         else if n = 4 then [str ''Gallery 4 Alt Text'']
         else [])"

definition isGallerySlot :: "imageType \<Rightarrow> bool" where
  "isGallerySlot t = (case t of Hero \<Rightarrow> False | Logo \<Rightarrow> False | Gallery n \<Rightarrow> 1 \<le> n \<and> n \<le> 4)"

definition aggregateField :: "variant \<Rightarrow> jsstring" where
  "aggregateField v =
    (case v of CleanServer \<Rightarrow> str ''Gallery URLs (JSON)'' | WebhookServer \<Rightarrow> str ''Photo Gallery Url'')"

definition aggregateValue :: "variant \<Rightarrow> jsstring list \<Rightarrow> fieldval" where
  "aggregateValue v urls = (case v of CleanServer \<Rightarrow> JsonText urls | WebhookServer \<Rightarrow> Attachments urls)"

definition markerFields :: "variant \<Rightarrow> jsstring list" where
  "markerFields v =
    (case v of
       CleanServer \<Rightarrow> [str ''Status'', str ''Last Modified'', str ''Processed'']
     | WebhookServer \<Rightarrow> [])"

definition fieldNames :: "fields \<Rightarrow> jsstring set" where
  "fieldNames updateFields = fst ` set updateFields"

text \<open>The published URLs of the gallery images among the processed images.\<close>

definition galleryUrlsIn :: "processed list \<Rightarrow> jsstring set" where
  "galleryUrlsIn ps = {cloudinaryUrl p | p. p \<in> set ps \<and> isGallerySlot (type p)}"

section \<open>Results for the examples\<close>

definition heroAsset :: processed where
  "heroAsset =
    \<lparr>originalUrl = str ''https://a/hero'', cloudinaryUrl = str ''https://cdn/a-hero'',
     publicId = str ''joinphilly/a-hero'', filename = str ''a-hero.webp'',
     altText = str ''A hero image'', width = 1600, height = 900, type = Hero,
     format = str ''webp''\<rparr>"

definition galleryAsset :: processed where
  "galleryAsset =
    \<lparr>originalUrl = str ''https://a/g2'', cloudinaryUrl = str ''https://cdn/a-gallery-2'',
     publicId = str ''joinphilly/a-gallery-2'', filename = str ''a-gallery-2.webp'',
     altText = str ''A group photo'', width = 1200, height = 800, type = Gallery 2,
     format = str ''webp''\<rparr>"

text \<open>A result whose display name is the \<open>Name\<close> of the record of \<open>oneRecordTable\<close>.\<close>

definition matchedResult :: clubResult where
  "matchedResult =
    \<lparr>name = str ''a'', cleanName = str ''a'', submissionId = [], email = [],
     processed = [heroAsset], errors = [], cloudinaryUrls = [str ''https://cdn/a-hero''],
     airtableUpdate = None\<rparr>"

text \<open>
  The result of a row whose submission id and club name columns are empty and whose
  hero image was processed.
\<close>

definition namelessResult :: clubResult where
  "namelessResult =
    \<lparr>name = [], cleanName = str ''unknown-club'', submissionId = [], email = [],
     processed = [heroAsset], errors = [], cloudinaryUrls = [str ''https://cdn/a-hero''],
     airtableUpdate = None\<rparr>"

text \<open>
  Two results for the examples, with the display name \<open>A\<close> and the cleaned name \<open>a\<close>: one
  whose submission id is blank, one whose submission id is \<open>s1\<close>.
\<close>

definition blankIdResult :: clubResult where
  "blankIdResult =
    \<lparr>name = str ''A'', cleanName = str ''a'', submissionId = str ''  '', email = [],
     processed = [], errors = [], cloudinaryUrls = [], airtableUpdate = None\<rparr>"

definition knownIdResult :: clubResult where
  "knownIdResult =
    \<lparr>name = str ''A'', cleanName = str ''a'', submissionId = str ''s1'', email = [],
     processed = [heroAsset], errors = [], cloudinaryUrls = [str ''https://cdn/a-hero''],
     airtableUpdate = None\<rparr>"

text \<open>
  Two clubs for the examples.  The first has a hero image, whose download fails on the
  server \<open>heroDown\<close>, and a logo image; the second has a logo image and one gallery
  image, whose download fails on \<open>heroDown\<close>.
\<close>

definition heroFailsClub :: club where
  "heroFailsClub =
    \<lparr>club.name = str ''a'', originalName = str ''A'',
     heroImage = Some (str ''https://a/hero''), logoImage = Some (str ''https://a/logo''),
     galleryImages = [], submissionId = [], email = [], rawData = []\<rparr>"

definition galleryFailsClub :: club where
  "galleryFailsClub =
    \<lparr>club.name = str ''b'', originalName = str ''B'',
     heroImage = None, logoImage = Some (str ''https://b/logo''),
     galleryImages = [str ''https://a/hero''], submissionId = [], email = [], rawData = []\<rparr>"

section \<open>The values of the update, by slot\<close>

text \<open>
  The asset of an image type that the update map shows: the last one of that type in
  \<open>processed\<close> (a later \<open>case\<close> of the \<open>switch\<close> overwrites an earlier one; the handler
  produces at most one asset per type).
\<close>

definition lastOfType :: "imageType \<Rightarrow> processed list \<Rightarrow> processed option" where
  "lastOfType t ps = find (\<lambda>p. type p = t) (rev ps)"

text \<open>The fields of the slot of an asset, with the values that the asset gives them.\<close>

definition slotValues :: "processed \<Rightarrow> fields" where
  "slotValues p =
    (case type p of
       Hero \<Rightarrow> [(str ''Hero URL'', Text (cloudinaryUrl p)), (str ''Hero Alt Text'', Text (altText p))]
     | Logo \<Rightarrow> [(str ''Logo URL'', Text (cloudinaryUrl p)), (str ''Logo Alt Text'', Text (altText p))]
     | Gallery n \<Rightarrow>
         if n = 1 then [(str ''Gallery 1 Alt Text'', Text (altText p))]
         else if n = 2 then [(str ''Gallery 2 Alt Text'', Text (altText p))]
         else if n = 3 then [(str ''Gallery 3 Alt Text'', Text (altText p))]
         else if n = 4 then [(str ''Gallery 4 Alt Text'', Text (altText p))]
         else [])"

text \<open>
  The URLs of the aggregate gallery field: the published URL of the asset of each of
  the gallery slots 1 to 4 that has one, in the order of the slots (an empty URL is
  left out).
\<close>

definition galleryAggregate :: "processed list \<Rightarrow> jsstring list" where
  "galleryAggregate ps =
    concat (map (\<lambda>n. case lastOfType (Gallery n) ps of
                        None \<Rightarrow> []
                      | Some p \<Rightarrow> if cloudinaryUrl p \<noteq> [] then [cloudinaryUrl p] else [])
              [1, 2, 3, 4])"

text \<open>The array \<open>galleryUrls\<close>, filled up with holes to four entries.\<close>

definition fourSlots :: "jsstring option list \<Rightarrow> jsstring option list" where
  "fourSlots a = a @ replicate (4 - length a) None"

definition lastUrls :: "processed list \<Rightarrow> jsstring option list" where
  "lastUrls ps = map (\<lambda>n. map_option cloudinaryUrl (lastOfType (Gallery n) ps)) [1, 2, 3, 4]"

text \<open>A second gallery asset for the examples, for gallery slot 3.\<close>

definition galleryAsset3 :: processed where
  "galleryAsset3 =
    \<lparr>originalUrl = str ''https://a/g3'', cloudinaryUrl = str ''https://cdn/a-gallery-3'',
     publicId = str ''joinphilly/a-gallery-3'', filename = str ''a-gallery-3.webp'',
     altText = str ''A group photo'', width = 1200, height = 800, type = Gallery 3,
     format = str ''webp''\<rparr>"

section \<open>The scanner: evaluation, invariant, termination\<close>

declare scan_loop.simps [simp del]

lemmas scan_eval =
  parseRows_def str_def scan0_def flush_def step_def charAt_def keepRow_def trim_def
  isSpace_def Let_def scan_loop.simps

text \<open>
  C6: on the input \<open>a,"b,c","d""e"\<close> the scanner returns exactly one row, with the three
  fields \<open>a\<close>, \<open>b,c\<close> and \<open>d"e\<close>: the comma inside quotes stays in its field and the
  doubled quote becomes one quote character.
\<close>

theorem parse_quoted_example:
  "parseRows (str ''a,\"b,c\",\"d\"\"e\"'') = [[str ''a'', str ''b,c'', str ''d\"e'']]"
  by (simp add: scan_eval)

lemma step_keeps_rows:
  assumes "\<forall>row \<in> set (rows st). keepRow row"
  shows "\<forall>row \<in> set (rows (snd (step csvText i st))). keepRow row"
  using assms by (auto simp: step_def Let_def)

lemma scan_loop_keeps_rows:
  "\<forall>row \<in> set (rows st). keepRow row
     \<Longrightarrow> \<forall>row \<in> set (rows (scan_loop csvText i st)). keepRow row"
proof (induction csvText i st rule: scan_loop.induct)
  case (1 csvText i st)
  show ?case
  proof (cases "i < length csvText")
    case True
    obtain i' st' where s: "step csvText i st = (i', st')"
      by (cases "step csvText i st")
    have "\<forall>row \<in> set (rows st'). keepRow row"
      using step_keeps_rows [OF "1.prems", of csvText i] s by simp
    then have "\<forall>row \<in> set (rows (scan_loop csvText i' st')). keepRow row"
      by (rule "1.IH" [OF True s [symmetric]])
    then show ?thesis
      using True s by (subst scan_loop.simps) simp
  next
    case False
    then show ?thesis
      using "1.prems" by (subst scan_loop.simps) simp
  qed
qed

lemma flush_keeps_rows:
  "\<forall>row \<in> set (rows st). keepRow row \<Longrightarrow> \<forall>row \<in> set (flush st). keepRow row"
  by (auto simp: flush_def Let_def)

lemma parseRows_keepRow: "\<forall>row \<in> set (parseRows csvText). keepRow row"
  unfolding parseRows_def
  by (rule flush_keeps_rows, rule scan_loop_keeps_rows) (simp add: scan0_def)

lemma scan_loop_unfold:
  "i < length csvText \<Longrightarrow> step csvText i st = (i', st')
     \<Longrightarrow> scan_loop csvText i st = scan_loop csvText i' st'"
  by (subst scan_loop.simps) simp

lemma scan_loop_exit: "\<not> i < length csvText \<Longrightarrow> scan_loop csvText i st = st"
  by (subst scan_loop.simps) simp

lemma reaches_scan_loop:
  "reaches csvText i st \<Longrightarrow> scan_loop csvText i st = scan_loop csvText 0 scan0"
proof (induction rule: reaches.induct)
  case start
  show ?case by (rule refl)
next
  case (iterate i st i' st')
  then show ?case by (simp add: scan_loop_unfold)
qed

lemma scan_loop_reaches_exit:
  "reaches csvText i st \<Longrightarrow> \<exists>j. length csvText \<le> j \<and> reaches csvText j (scan_loop csvText i st)"
proof (induction csvText i st rule: scan_loop.induct)
  case (1 csvText i st)
  show ?case
  proof (cases "i < length csvText")
    case True
    obtain i' st' where s: "step csvText i st = (i', st')"
      by (cases "step csvText i st")
    have "reaches csvText i' st'"
      using "1.prems" True s by (rule reaches.iterate)
    then have "\<exists>j. length csvText \<le> j \<and> reaches csvText j (scan_loop csvText i' st')"
      by (rule "1.IH" [OF True s [symmetric]])
    then show ?thesis
      by (simp add: scan_loop_unfold [OF True s])
  next
    case False
    then have "length csvText \<le> i \<and> reaches csvText i (scan_loop csvText i st)"
      using "1.prems" by (simp add: scan_loop_exit)
    then show ?thesis by blast
  qed
qed

text \<open>Inside quotes and with no quote character ahead, the loop appends the rest of the input.\<close>

lemma scan_loop_in_quotes:
  "inQuotes st \<Longrightarrow> \<forall>k. i \<le> k \<and> k < length csvText \<longrightarrow> csvText ! k \<noteq> QUOTE
     \<Longrightarrow> scan_loop csvText i st = st\<lparr>currentField := currentField st @ drop i csvText\<rparr>"
proof (induction csvText i st rule: scan_loop.induct)
  case (1 csvText i st)
  show ?case
  proof (cases "i < length csvText")
    case True
    let ?st' = "st\<lparr>currentField := currentField st @ [csvText ! i]\<rparr>"
    have nq: "csvText ! i \<noteq> QUOTE"
      using "1.prems"(2) True by simp
    have s: "step csvText i st = (i + 1, ?st')"
      using nq "1.prems"(1) by (simp add: step_def Let_def)
    have "scan_loop csvText (i + 1) ?st'
            = ?st'\<lparr>currentField := currentField ?st' @ drop (i + 1) csvText\<rparr>"
      using "1.prems" by (intro "1.IH" [OF True s [symmetric]]) simp_all
    then show ?thesis
      using True by (simp add: scan_loop_unfold [OF True s] Cons_nth_drop_Suc)
  next
    case False
    then show ?thesis by (simp add: scan_loop_exit)
  qed
qed

lemma blank_field: "\<forall>c \<in> set field. isSpace c \<Longrightarrow> trim field = []"
proof -
  assume "\<forall>c \<in> set field. isSpace c"
  then have d: "dropWhile isSpace field = []"
    by simp
  show ?thesis
    unfolding trim_def d by simp
qed

lemma isSpace_plain: "isSpace c \<Longrightarrow> c \<noteq> QUOTE \<and> c \<noteq> COMMA"
  by (auto simp: isSpace_def)

lemma blank_stretch:
  "currentRow st = [] \<Longrightarrow> \<not> inQuotes st \<Longrightarrow> \<forall>c \<in> set (currentField st). isSpace c
   \<Longrightarrow> i + n < length csvText
   \<Longrightarrow> \<forall>k < n. isSpace (csvText ! (i + k)) \<and> csvText ! (i + k) \<noteq> LF \<and> csvText ! (i + k) \<noteq> CR
   \<Longrightarrow> csvText ! (i + n) = LF \<or> csvText ! (i + n) = CR
   \<Longrightarrow> scan_loop csvText i st
         = scan_loop csvText
             (if csvText ! (i + n) = CR \<and> charAt csvText (i + n + 1) = Some LF
              then i + n + 2 else i + n + 1)
             (st\<lparr>currentField := []\<rparr>)"
proof (induction n arbitrary: i st)
  case 0
  have k: "\<not> keepRow [currentField st]"
    using blank_field [OF "0.prems"(3)] by (simp add: keepRow_def)
  have "step csvText i st
          = (if csvText ! i = CR \<and> charAt csvText (i + 1) = Some LF then i + 2 else i + 1,
             st\<lparr>currentField := []\<rparr>)"
    using 0 k by (auto simp: step_def Let_def)
  then show ?case
    using "0.prems"(4) by (simp add: scan_loop_unfold)
next
  case (Suc n)
  let ?c = "csvText ! i"
  let ?st = "st\<lparr>currentField := currentField st @ [?c]\<rparr>"
  have c: "isSpace ?c \<and> ?c \<noteq> LF \<and> ?c \<noteq> CR"
    using Suc.prems(5) by (metis add.right_neutral zero_less_Suc)
  then have s: "step csvText i st = (i + 1, ?st)"
    using isSpace_plain [of ?c] Suc.prems(2) by (simp add: step_def Let_def)
  have "scan_loop csvText (i + 1) ?st
          = scan_loop csvText
             (if csvText ! (i + 1 + n) = CR \<and> charAt csvText (i + 1 + n + 1) = Some LF
              then i + 1 + n + 2 else i + 1 + n + 1)
             (?st\<lparr>currentField := []\<rparr>)"
  proof (rule Suc.IH)
    show "currentRow ?st = []" using Suc.prems(1) by simp
    show "\<not> inQuotes ?st" using Suc.prems(2) by simp
    show "\<forall>c \<in> set (currentField ?st). isSpace c" using Suc.prems(3) c by simp
    show "i + 1 + n < length csvText" using Suc.prems(4) by simp
    show "\<forall>k < n. isSpace (csvText ! (i + 1 + k)) \<and> csvText ! (i + 1 + k) \<noteq> LF
            \<and> csvText ! (i + 1 + k) \<noteq> CR"
    proof (intro allI impI)
      fix k assume "k < n"
      then have "Suc k < Suc n" by simp
      then show "isSpace (csvText ! (i + 1 + k)) \<and> csvText ! (i + 1 + k) \<noteq> LF
            \<and> csvText ! (i + 1 + k) \<noteq> CR"
        using Suc.prems(5) by (metis add_Suc_right add_Suc_shift Suc_eq_plus1)
    qed
    show "csvText ! (i + 1 + n) = LF \<or> csvText ! (i + 1 + n) = CR" using Suc.prems(6) by simp
  qed
  moreover have "i < length csvText"
    using Suc.prems(4) by simp
  ultimately show ?case
    using s by (simp add: scan_loop_unfold)
qed

lemma blank_tail:
  "currentRow st = [] \<Longrightarrow> \<not> inQuotes st \<Longrightarrow> \<forall>c \<in> set (currentField st). isSpace c
   \<Longrightarrow> \<forall>k. i \<le> k \<and> k < length csvText
         \<longrightarrow> isSpace (csvText ! k) \<and> csvText ! k \<noteq> LF \<and> csvText ! k \<noteq> CR
   \<Longrightarrow> flush (scan_loop csvText i st) = rows st"
proof (induction csvText i st rule: scan_loop.induct)
  case (1 csvText i st)
  show ?case
  proof (cases "i < length csvText")
    case True
    let ?c = "csvText ! i"
    let ?st = "st\<lparr>currentField := currentField st @ [?c]\<rparr>"
    have c: "isSpace ?c \<and> ?c \<noteq> LF \<and> ?c \<noteq> CR"
      using "1.prems"(4) True by simp
    then have s: "step csvText i st = (i + 1, ?st)"
      using isSpace_plain [of ?c] "1.prems"(2) by (simp add: step_def Let_def)
    have "flush (scan_loop csvText (i + 1) ?st) = rows ?st"
      using "1.prems" c by (intro "1.IH" [OF True s [symmetric]]) simp_all
    then show ?thesis
      by (simp add: scan_loop_unfold [OF True s])
  next
    case False
    have "\<not> keepRow [currentField st]"
      using blank_field [OF "1.prems"(3)] by (simp add: keepRow_def)
    then show ?thesis
      using False "1.prems"(1) by (simp add: scan_loop_exit flush_def)
  qed
qed

text \<open>
  C7: for every input, every row that the scanner returns has at least one field that is
  not blank after trimming.  A line of blanks gives no row, wherever it stands: when the
  loop is at the start of a line, a stretch of blanks up to a line end (LF, CR or CR LF)
  takes it to the start of the next line with its variables unchanged; and when only
  blanks are left up to the end of the input, the result is the rows found so far.
\<close>

theorem parse_rows_nonblank:
  "(\<forall>row \<in> set (parseRows csvText). \<exists>field \<in> set row. trim field \<noteq> [])
   \<and> (\<forall>i n st.
         currentRow st = [] \<and> currentField st = [] \<and> \<not> inQuotes st \<and> i + n < length csvText
         \<and> (\<forall>k < n. isSpace (csvText ! (i + k)) \<and> csvText ! (i + k) \<noteq> LF \<and> csvText ! (i + k) \<noteq> CR)
         \<and> (csvText ! (i + n) = LF \<or> csvText ! (i + n) = CR)
       \<longrightarrow> scan_loop csvText i st
             = scan_loop csvText
                 (if csvText ! (i + n) = CR \<and> charAt csvText (i + n + 1) = Some LF
                  then i + n + 2 else i + n + 1) st)
   \<and> (\<forall>i st.
         reaches csvText i st \<and> currentRow st = [] \<and> currentField st = [] \<and> \<not> inQuotes st
         \<and> (\<forall>k. i \<le> k \<and> k < length csvText
               \<longrightarrow> isSpace (csvText ! k) \<and> csvText ! k \<noteq> LF \<and> csvText ! k \<noteq> CR)
       \<longrightarrow> parseRows csvText = rows st)"
proof (intro conjI allI impI ballI)
  fix row
  assume "row \<in> set (parseRows csvText)"
  then have "keepRow row"
    using parseRows_keepRow by blast
  then show "\<exists>field \<in> set row. trim field \<noteq> []"
    by (simp add: keepRow_def list_ex_iff)
next
  fix i n and st :: scan
  assume a: "currentRow st = [] \<and> currentField st = [] \<and> \<not> inQuotes st \<and> i + n < length csvText
         \<and> (\<forall>k < n. isSpace (csvText ! (i + k)) \<and> csvText ! (i + k) \<noteq> LF \<and> csvText ! (i + k) \<noteq> CR)
         \<and> (csvText ! (i + n) = LF \<or> csvText ! (i + n) = CR)"
  then have "st\<lparr>currentField := []\<rparr> = st"
    by simp
  moreover have "scan_loop csvText i st
         = scan_loop csvText
             (if csvText ! (i + n) = CR \<and> charAt csvText (i + n + 1) = Some LF
              then i + n + 2 else i + n + 1)
             (st\<lparr>currentField := []\<rparr>)"
    using a by (intro blank_stretch) simp_all
  ultimately show "scan_loop csvText i st
             = scan_loop csvText
                 (if csvText ! (i + n) = CR \<and> charAt csvText (i + n + 1) = Some LF
                  then i + n + 2 else i + n + 1) st"
    by simp
next
  fix i st
  assume a: "reaches csvText i st \<and> currentRow st = [] \<and> currentField st = [] \<and> \<not> inQuotes st
         \<and> (\<forall>k. i \<le> k \<and> k < length csvText
               \<longrightarrow> isSpace (csvText ! k) \<and> csvText ! k \<noteq> LF \<and> csvText ! k \<noteq> CR)"
  then have "flush (scan_loop csvText i st) = rows st"
    by (intro blank_tail) simp_all
  then show "parseRows csvText = rows st"
    using a by (simp add: parseRows_def reaches_scan_loop)
qed

theorem parse_rows_nonblank_witness:
  "parseRows (str ''a,b\<newline>  \<newline> ,\<newline>c\<newline>   '') = [[str ''a'', str ''b''], [str ''c'']]
   \<and> (\<exists>field \<in> set [str ''a'', str ''b'']. trim field \<noteq> [])
   \<and> scan_loop (str ''a\<newline> \<newline>b'') 2 \<lparr>rows = [[str ''a'']], currentRow = [], currentField = [], inQuotes = False\<rparr>
       = scan_loop (str ''a\<newline> \<newline>b'') 4 \<lparr>rows = [[str ''a'']], currentRow = [], currentField = [], inQuotes = False\<rparr>
   \<and> reaches (str ''a\<newline> '') 2 \<lparr>rows = [[str ''a'']], currentRow = [], currentField = [], inQuotes = False\<rparr>
   \<and> parseRows (str ''a\<newline> '') = [[str ''a'']]"
proof -
  let ?st = "\<lparr>rows = [[str ''a'']], currentRow = [], currentField = [], inQuotes = False\<rparr>"
  have e: "parseRows (str ''a,b\<newline>  \<newline> ,\<newline>c\<newline>   '') = [[str ''a'', str ''b''], [str ''c'']]"
    by (simp add: scan_eval)
  have "[str ''a'', str ''b''] \<in> set (parseRows (str ''a,b\<newline>  \<newline> ,\<newline>c\<newline>   ''))"
    unfolding e by simp
  then have 1: "\<exists>field \<in> set [str ''a'', str ''b'']. trim field \<noteq> []"
    using parse_rows_nonblank [of "str ''a,b\<newline>  \<newline> ,\<newline>c\<newline>   ''", THEN conjunct1] by blast
  let ?s = "str ''a\<newline> \<newline>b''"
  have h2: "currentRow ?st = [] \<and> currentField ?st = [] \<and> \<not> inQuotes ?st \<and> 2 + 1 < length ?s
         \<and> (\<forall>k < 1. isSpace (?s ! (2 + k)) \<and> ?s ! (2 + k) \<noteq> LF \<and> ?s ! (2 + k) \<noteq> CR)
         \<and> (?s ! (2 + 1) = LF \<or> ?s ! (2 + 1) = CR)"
    by (simp add: str_def isSpace_def)
  have "scan_loop ?s 2 ?st
             = scan_loop ?s
                 (if ?s ! (2 + 1) = CR \<and> charAt ?s (2 + 1 + 1) = Some LF
                  then 2 + 1 + 2 else 2 + 1 + 1) ?st"
    by (rule parse_rows_nonblank [of ?s, THEN conjunct2, THEN conjunct1, rule_format, OF h2])
  moreover have "?s ! (2 + 1) = LF"
    by (simp add: str_def)
  ultimately have 2: "scan_loop ?s 2 ?st = scan_loop ?s 4 ?st"
    by simp
  let ?t = "str ''a\<newline> ''"
  have r1: "reaches ?t 1 (scan0\<lparr>currentField := str ''a''\<rparr>)"
    by (rule reaches.iterate [OF reaches.start]) (simp_all add: step_def str_def charAt_def scan0_def)
  have r2: "reaches ?t 2 ?st"
    by (rule reaches.iterate [OF r1])
      (simp_all add: step_def str_def charAt_def scan0_def keepRow_def trim_def isSpace_def)
  have rest: "\<forall>k. 2 \<le> k \<and> k < length ?t
               \<longrightarrow> isSpace (?t ! k) \<and> ?t ! k \<noteq> LF \<and> ?t ! k \<noteq> CR"
  proof (intro allI impI)
    fix k
    assume "2 \<le> k \<and> k < length ?t"
    then have "k = 2"
      by (simp add: str_def)
    then show "isSpace (?t ! k) \<and> ?t ! k \<noteq> LF \<and> ?t ! k \<noteq> CR"
      by (simp add: str_def isSpace_def)
  qed
  have h3: "reaches ?t 2 ?st \<and> currentRow ?st = [] \<and> currentField ?st = [] \<and> \<not> inQuotes ?st
         \<and> (\<forall>k. 2 \<le> k \<and> k < length ?t
               \<longrightarrow> isSpace (?t ! k) \<and> ?t ! k \<noteq> LF \<and> ?t ! k \<noteq> CR)"
    using r2 rest by simp
  have "parseRows ?t = rows ?st"
    by (rule parse_rows_nonblank [of ?t, THEN conjunct2, THEN conjunct2, rule_format, OF h3])
  then have 3: "parseRows ?t = [[str ''a'']]"
    by simp
  from e 1 2 r2 3 show ?thesis
    by (intro conjI)
qed

lemma unquote_plain:
  "c \<noteq> QUOTE \<Longrightarrow> unquote (c # cs) = map_option ((#) c) (unquote cs)"
  by (cases cs) simp_all

lemma unquote_quote:
  "unquote (QUOTE # cs) = Some content
     \<Longrightarrow> \<exists>ds content'. cs = QUOTE # ds \<and> unquote ds = Some content' \<and> content = QUOTE # content'"
  by (cases cs) (auto split: if_splits)

text \<open>Inside quotes, the loop appends the content of the open field.\<close>

lemma scan_loop_unquote:
  "inQuotes st \<Longrightarrow> unquote (drop i csvText) = Some content
     \<Longrightarrow> scan_loop csvText i st = st\<lparr>currentField := currentField st @ content\<rparr>"
proof (induction csvText i st arbitrary: content rule: scan_loop.induct)
  case (1 csvText i st)
  show ?case
  proof (cases "i < length csvText")
    case False
    then have "content = []"
      using "1.prems"(2) by simp
    then show ?thesis
      using False by (simp add: scan_loop_exit)
  next
    case True
    note i = True
    have d: "drop i csvText = csvText ! i # drop (Suc i) csvText"
      using i by (simp add: Cons_nth_drop_Suc)
    show ?thesis
    proof (cases "csvText ! i = QUOTE")
      case True
      then obtain ds content' where ds: "drop (Suc i) csvText = QUOTE # ds"
        and u: "unquote ds = Some content'" and c: "content = QUOTE # content'"
        using "1.prems"(2) unquote_quote [of "drop (Suc i) csvText" content] unfolding d by auto
      have n1: "Suc i < length csvText"
      proof (rule ccontr)
        assume "\<not> Suc i < length csvText"
        then have "drop (Suc i) csvText = []"
          by simp
        with ds show False by simp
      qed
      have "drop (Suc i) csvText = csvText ! Suc i # drop (Suc (Suc i)) csvText"
        using n1 by (simp add: Cons_nth_drop_Suc)
      with ds have n2: "csvText ! Suc i = QUOTE" and ds': "ds = drop (i + 2) csvText"
        by simp_all
      note n = n1 n2
      let ?st' = "st\<lparr>currentField := currentField st @ [QUOTE]\<rparr>"
      have s: "step csvText i st = (i + 2, ?st')"
        using True "1.prems"(1) n by (simp add: step_def Let_def charAt_def)
      have "scan_loop csvText (i + 2) ?st' = ?st'\<lparr>currentField := currentField ?st' @ content'\<rparr>"
        using "1.prems"(1) u ds' by (intro "1.IH" [OF i s [symmetric]]) simp_all
      then show ?thesis
        using c by (simp add: scan_loop_unfold [OF i s])
    next
      case False
      then obtain content' where u: "unquote (drop (Suc i) csvText) = Some content'"
        and c: "content = csvText ! i # content'"
        using "1.prems"(2) unfolding d by (auto simp: unquote_plain)
      let ?st' = "st\<lparr>currentField := currentField st @ [csvText ! i]\<rparr>"
      have s: "step csvText i st = (i + 1, ?st')"
        using False "1.prems"(1) by (simp add: step_def Let_def)
      have "scan_loop csvText (i + 1) ?st' = ?st'\<lparr>currentField := currentField ?st' @ content'\<rparr>"
        using "1.prems"(1) u by (intro "1.IH" [OF i s [symmetric]]) simp_all
      then show ?thesis
        using c by (simp add: scan_loop_unfold [OF i s])
    qed
  qed
qed

text \<open>A loop that ends inside quotes has passed an opening quote of a field that is never closed.\<close>

lemma scan_loop_open_quote:
  "reaches csvText i st \<Longrightarrow> inQuotes (scan_loop csvText i st)
     \<Longrightarrow> (inQuotes st \<and> (\<exists>content. unquote (drop i csvText) = Some content))
         \<or> (\<exists>j st0 content. reaches csvText j st0 \<and> j < length csvText \<and> csvText ! j = QUOTE
               \<and> \<not> inQuotes st0 \<and> unquote (drop (Suc j) csvText) = Some content)"
proof (induction csvText i st rule: scan_loop.induct)
  case (1 csvText i st)
  show ?case
  proof (cases "i < length csvText")
    case False
    then show ?thesis
      using "1.prems"(2) by (simp add: scan_loop_exit)
  next
    case True
    note i = True
    obtain i' st' where s: "step csvText i st = (i', st')"
      by (cases "step csvText i st")
    have r: "reaches csvText i' st'"
      using "1.prems"(1) i s by (rule reaches.iterate)
    have "inQuotes (scan_loop csvText i' st')"
      using "1.prems"(2) by (simp add: scan_loop_unfold [OF i s])
    from "1.IH" [OF i s [symmetric] r this] show ?thesis
    proof
      assume a: "inQuotes st' \<and> (\<exists>content. unquote (drop i' csvText) = Some content)"
      then obtain content' where u: "unquote (drop i' csvText) = Some content'"
        by blast
      have d: "drop i csvText = csvText ! i # drop (Suc i) csvText"
        using i by (simp add: Cons_nth_drop_Suc)
      show ?thesis
      proof (cases "inQuotes st")
        case False
        then have "csvText ! i = QUOTE \<and> i' = Suc i"
          using a s by (auto simp: step_def Let_def split: if_splits)
        then show ?thesis
          using "1.prems"(1) i False u by blast
      next
        case True
        show ?thesis
        proof (cases "csvText ! i = QUOTE")
          case False
          then have "i' = Suc i"
            using s True by (auto simp: step_def Let_def split: if_splits)
          then have "unquote (drop i csvText) = Some (csvText ! i # content')"
            using u False unfolding d by (simp add: unquote_plain)
          then show ?thesis
            using True by blast
        next
          case quote: True
          then have n: "charAt csvText (i + 1) = Some QUOTE \<and> i' = i + 2"
            using s True a by (auto simp: step_def Let_def split: if_splits)
          then have "Suc i < length csvText" "csvText ! Suc i = QUOTE"
            by (auto simp: charAt_def split: if_splits)
          then have "drop i csvText = QUOTE # QUOTE # drop i' csvText"
            using n quote d by (simp add: Cons_nth_drop_Suc [symmetric])
          then have "unquote (drop i csvText) = Some (QUOTE # content')"
            using u by simp
          then show ?thesis
            using True by blast
        qed
      qed
    next
      assume "\<exists>j st0 content. reaches csvText j st0 \<and> j < length csvText \<and> csvText ! j = QUOTE
               \<and> \<not> inQuotes st0 \<and> unquote (drop (Suc j) csvText) = Some content"
      then show ?thesis by blast
    qed
  qed
qed

text \<open>
  C8: the scanner is total.  On every input the loop reaches its exit (an index past the
  end of the input) in the state that \<open>scan_loop\<close> returns; no branch of the loop or of
  the final flush raises.  When the input ends inside a quoted field, the content of
  that field is flushed as the last field of the last row, unless that row is blank:
  \<^item> when the loop is at an opening quote and no quote character follows, everything
    after that quote is appended to the current field, which is flushed;
  \<^item> when the loop is at an opening quote and the field is never closed (every quote
    character that follows is doubled), the loop ends inside quotes, with the content
    of the field (\<open>unquote\<close>: a doubled quote is one quote character) appended to the
    current field, which is flushed;
  \<^item> every run that ends inside quotes is of that kind.
\<close>

theorem parse_total_unterminated_quote:
  "(\<exists>j. length csvText \<le> j \<and> reaches csvText j (scan_loop csvText 0 scan0)) \<and>
   (\<forall>i st. reaches csvText i st \<and> i < length csvText \<and> csvText ! i = QUOTE \<and> \<not> inQuotes st
        \<and> (\<forall>k. i < k \<and> k < length csvText \<longrightarrow> csvText ! k \<noteq> QUOTE)
      \<longrightarrow> parseRows csvText =
           (let row = currentRow st @ [currentField st @ drop (Suc i) csvText]
            in if keepRow row then rows st @ [row] else rows st)) \<and>
   (\<forall>i st content. reaches csvText i st \<and> i < length csvText \<and> csvText ! i = QUOTE
        \<and> \<not> inQuotes st \<and> unquote (drop (Suc i) csvText) = Some content
      \<longrightarrow> scan_loop csvText 0 scan0
            = st\<lparr>inQuotes := True, currentField := currentField st @ content\<rparr>
          \<and> parseRows csvText =
             (let row = currentRow st @ [currentField st @ content]
              in if keepRow row then rows st @ [row] else rows st)) \<and>
   (inQuotes (scan_loop csvText 0 scan0)
      \<longrightarrow> (\<exists>i st content. reaches csvText i st \<and> i < length csvText \<and> csvText ! i = QUOTE
             \<and> \<not> inQuotes st \<and> unquote (drop (Suc i) csvText) = Some content))"
proof -
  have 1: "\<exists>j. length csvText \<le> j \<and> reaches csvText j (scan_loop csvText 0 scan0)"
    by (rule scan_loop_reaches_exit [OF reaches.start])
  have blank: "\<not> keepRow [[]]"
    by (simp add: keepRow_def trim_def)
  have fl: "flush (st\<lparr>inQuotes := True, currentField := currentField st @ content\<rparr>)
           = (let row = currentRow st @ [currentField st @ content]
              in if keepRow row then rows st @ [row] else rows st)" for st :: scan and content
  proof (cases "currentField st @ content = [] \<and> currentRow st = []")
    case True
    then show ?thesis
      using blank by (simp add: flush_def)
  next
    case False
    then show ?thesis
      by (auto simp add: flush_def Let_def)
  qed
  have 2: "\<forall>i st. reaches csvText i st \<and> i < length csvText \<and> csvText ! i = QUOTE \<and> \<not> inQuotes st
        \<and> (\<forall>k. i < k \<and> k < length csvText \<longrightarrow> csvText ! k \<noteq> QUOTE)
      \<longrightarrow> parseRows csvText =
           (let row = currentRow st @ [currentField st @ drop (Suc i) csvText]
            in if keepRow row then rows st @ [row] else rows st)"
  proof (intro allI impI)
    fix i st
    assume a: "reaches csvText i st \<and> i < length csvText \<and> csvText ! i = QUOTE \<and> \<not> inQuotes st
        \<and> (\<forall>k. i < k \<and> k < length csvText \<longrightarrow> csvText ! k \<noteq> QUOTE)"
    let ?st' = "st\<lparr>inQuotes := True\<rparr>"
    have s: "step csvText i st = (i + 1, ?st')"
      using a by (simp add: step_def Let_def)
    have "scan_loop csvText 0 scan0 = scan_loop csvText i st"
      using a by (simp add: reaches_scan_loop)
    also have "\<dots> = scan_loop csvText (i + 1) ?st'"
      using a s by (simp add: scan_loop_unfold)
    also have "\<dots> = ?st'\<lparr>currentField := currentField ?st' @ drop (i + 1) csvText\<rparr>"
      using a by (intro scan_loop_in_quotes) simp_all
    finally have f: "scan_loop csvText 0 scan0
        = st\<lparr>inQuotes := True, currentField := currentField st @ drop (Suc i) csvText\<rparr>"
      by simp
    show "parseRows csvText =
             (let row = currentRow st @ [currentField st @ drop (Suc i) csvText]
              in if keepRow row then rows st @ [row] else rows st)"
      unfolding parseRows_def f by (rule fl)
  qed
  have 3: "\<forall>i st content. reaches csvText i st \<and> i < length csvText \<and> csvText ! i = QUOTE
        \<and> \<not> inQuotes st \<and> unquote (drop (Suc i) csvText) = Some content
      \<longrightarrow> scan_loop csvText 0 scan0
            = st\<lparr>inQuotes := True, currentField := currentField st @ content\<rparr>
          \<and> parseRows csvText =
             (let row = currentRow st @ [currentField st @ content]
              in if keepRow row then rows st @ [row] else rows st)"
  proof (intro allI impI)
    fix i st content
    assume a: "reaches csvText i st \<and> i < length csvText \<and> csvText ! i = QUOTE
        \<and> \<not> inQuotes st \<and> unquote (drop (Suc i) csvText) = Some content"
    let ?st' = "st\<lparr>inQuotes := True\<rparr>"
    have s: "step csvText i st = (i + 1, ?st')"
      using a by (simp add: step_def Let_def)
    have "scan_loop csvText 0 scan0 = scan_loop csvText i st"
      using a by (simp add: reaches_scan_loop)
    also have "\<dots> = scan_loop csvText (i + 1) ?st'"
      using a s by (simp add: scan_loop_unfold)
    also have "\<dots> = ?st'\<lparr>currentField := currentField ?st' @ content\<rparr>"
      using a by (intro scan_loop_unquote) simp_all
    finally have f: "scan_loop csvText 0 scan0
        = st\<lparr>inQuotes := True, currentField := currentField st @ content\<rparr>"
      by simp
    have "parseRows csvText =
             (let row = currentRow st @ [currentField st @ content]
              in if keepRow row then rows st @ [row] else rows st)"
      unfolding parseRows_def f by (rule fl)
    with f show "scan_loop csvText 0 scan0
            = st\<lparr>inQuotes := True, currentField := currentField st @ content\<rparr>
          \<and> parseRows csvText =
             (let row = currentRow st @ [currentField st @ content]
              in if keepRow row then rows st @ [row] else rows st)"
      by (rule conjI)
  qed
  have 4: "inQuotes (scan_loop csvText 0 scan0)
      \<longrightarrow> (\<exists>i st content. reaches csvText i st \<and> i < length csvText \<and> csvText ! i = QUOTE
             \<and> \<not> inQuotes st \<and> unquote (drop (Suc i) csvText) = Some content)"
  proof
    assume "inQuotes (scan_loop csvText 0 scan0)"
    from scan_loop_open_quote [OF reaches.start this]
    show "\<exists>i st content. reaches csvText i st \<and> i < length csvText \<and> csvText ! i = QUOTE
             \<and> \<not> inQuotes st \<and> unquote (drop (Suc i) csvText) = Some content"
      by (simp add: scan0_def)
  qed
  show ?thesis
    by (intro conjI 1 2 3 4)
qed

theorem parse_total_unterminated_quote_witness:
  "reaches (str ''x,\"a b'') 2 \<lparr>rows = [], currentRow = [str ''x''], currentField = [], inQuotes = False\<rparr>
   \<and> parseRows (str ''x,\"a b'') = [[str ''x'', str ''a b'']]
   \<and> unquote (drop 1 (str ''\"a\"\"b'')) = Some (str ''a\"b'')
   \<and> inQuotes (scan_loop (str ''\"a\"\"b'') 0 scan0)
   \<and> parseRows (str ''\"a\"\"b'') = [[str ''a\"b'']]
   \<and> (\<exists>i st content. reaches (str ''\"a\"\"b'') i st \<and> i < length (str ''\"a\"\"b'')
         \<and> str ''\"a\"\"b'' ! i = QUOTE \<and> \<not> inQuotes st
         \<and> unquote (drop (Suc i) (str ''\"a\"\"b'')) = Some content)"
proof -
  let ?s = "str ''x,\"a b''"
  let ?st = "\<lparr>rows = [], currentRow = [str ''x''], currentField = [], inQuotes = False\<rparr>"
  have r1: "reaches ?s 1 (scan0\<lparr>currentField := str ''x''\<rparr>)"
    by (rule reaches.iterate [OF reaches.start]) (simp_all add: step_def str_def charAt_def scan0_def)
  have r2: "reaches ?s 2 ?st"
    by (rule reaches.iterate [OF r1]) (simp_all add: step_def str_def charAt_def scan0_def)
  have len: "2 < length ?s" and q: "?s ! 2 = QUOTE" and nq: "\<not> inQuotes ?st"
    by (simp_all add: str_def)
  have rest: "\<forall>k. 2 < k \<and> k < length ?s \<longrightarrow> ?s ! k \<noteq> QUOTE"
  proof (intro allI impI)
    fix k
    assume "2 < k \<and> k < length ?s"
    then have "k = 3 \<or> k = 4 \<or> k = 5"
      by (simp add: str_def) arith
    then show "?s ! k \<noteq> QUOTE"
      by (auto simp: str_def)
  qed
  have h: "reaches ?s 2 ?st \<and> 2 < length ?s \<and> ?s ! 2 = QUOTE \<and> \<not> inQuotes ?st
        \<and> (\<forall>k. 2 < k \<and> k < length ?s \<longrightarrow> ?s ! k \<noteq> QUOTE)"
    by (rule conjI [OF r2 conjI [OF len conjI [OF q conjI [OF nq rest]]]])
  have p: "parseRows ?s =
           (let row = currentRow ?st @ [currentField ?st @ drop (Suc 2) ?s]
            in if keepRow row then rows ?st @ [row] else rows ?st)"
    by (rule parse_total_unterminated_quote [THEN conjunct2, THEN conjunct1, rule_format, OF h])
  have d: "drop (Suc 2) ?s = str ''a b''"
    by (simp add: str_def)
  have k: "keepRow [str ''x'', str ''a b'']"
    by (simp add: str_def keepRow_def trim_def isSpace_def)
  have 1: "parseRows ?s = [[str ''x'', str ''a b'']]"
    unfolding p d using k by simp
  let ?t = "str ''\"a\"\"b''"
  have u: "unquote (drop (Suc 0) ?t) = Some (str ''a\"b'')"
    by (simp add: str_def)
  have h2: "reaches ?t 0 scan0 \<and> 0 < length ?t \<and> ?t ! 0 = QUOTE \<and> \<not> inQuotes scan0
        \<and> unquote (drop (Suc 0) ?t) = Some (str ''a\"b'')"
    using u reaches.start [of ?t] by (simp add: str_def scan0_def)
  note T = parse_total_unterminated_quote [of ?t]
  have p2: "scan_loop ?t 0 scan0
            = scan0\<lparr>inQuotes := True, currentField := currentField scan0 @ str ''a\"b''\<rparr>
          \<and> parseRows ?t =
             (let row = currentRow scan0 @ [currentField scan0 @ str ''a\"b'']
              in if keepRow row then rows scan0 @ [row] else rows scan0)"
    by (rule T [THEN conjunct2, THEN conjunct2, THEN conjunct1, rule_format, OF h2])
  have k2: "keepRow [str ''a\"b'']"
    by (simp add: str_def keepRow_def trim_def isSpace_def)
  have 2: "parseRows ?t = [[str ''a\"b'']]"
    using p2 k2 by (simp add: scan0_def)
  have 3: "inQuotes (scan_loop ?t 0 scan0)"
    using p2 by simp
  have 4: "\<exists>i st content. reaches ?t i st \<and> i < length ?t \<and> ?t ! i = QUOTE \<and> \<not> inQuotes st
         \<and> unquote (drop (Suc i) ?t) = Some content"
    by (rule T [THEN conjunct2, THEN conjunct2, THEN conjunct2, rule_format, OF 3])
  have 5: "unquote (drop 1 ?t) = Some (str ''a\"b'')"
    using u by simp
  show ?thesis
    by (intro conjI r2 1 5 3 2 4)
qed

section \<open>Name cleaning is idempotent\<close>

lemma replaceRuns_set:
  "set (replaceRuns cls r s) \<subseteq> {c \<in> set s. \<not> cls c} \<union> {r}"
proof (induction cls r s rule: replaceRuns.induct)
  case (1 cls r)
  show ?case by simp
next
  case (2 cls r c cs)
  have "set (dropWhile cls cs) \<subseteq> set cs"
    by (rule set_dropWhileD [THEN subsetI])
  with 2 show ?case
    by (cases "cls c") auto
qed

lemma replaceRuns_id:
  "\<forall>c \<in> set s. \<not> cls c \<Longrightarrow> replaceRuns cls r s = s"
  by (induction s) simp_all

lemma trim_id: "\<forall>c \<in> set s. \<not> isSpace c \<Longrightarrow> trim s = s"
proof -
  assume a: "\<forall>c \<in> set s. \<not> isSpace c"
  have "dropWhile isSpace s = s"
    using a by (cases s) simp_all
  moreover have "dropWhile isSpace (rev s) = rev s"
    using a by (cases "rev s") (simp, metis dropWhile.simps(2) list.set_intros(1) set_rev)
  ultimately show ?thesis
    by (simp add: trim_def)
qed

lemma toLowerCase_ascii:
  "\<forall>c \<in> set s. c < 128 \<Longrightarrow> toLowerCase unicodeLower s = map asciiLower s"
  by (simp add: toLowerCase_def list_all_iff)

lemma slugChar_facts:
  "slugChar c \<Longrightarrow> c < 128"
  "slugChar c \<Longrightarrow> asciiLower c = c"
  "slugChar c \<Longrightarrow> \<not> isSpace c"
  "slugChar c \<Longrightarrow> isWord c \<or> c = HYPHEN"
  by (auto simp: slugChar_def isLowerAlnum_def asciiLower_def isSpace_def isWord_def)

lemma word_lower:
  "isWord c \<or> c = HYPHEN \<Longrightarrow> c < 128 \<and> slugChar (asciiLower c)"
  by (auto simp: slugChar_def isLowerAlnum_def asciiLower_def isWord_def)

lemma cleanClubName_chars:
  "\<forall>c \<in> set (cleanClubName unicodeLower s). slugChar c"
proof -
  let ?a = "removeAll_re (\<lambda>c. \<not> (isWord c \<or> isSpace c \<or> c = HYPHEN)) s"
  let ?b = "replaceRuns isSpace HYPHEN ?a"
  have a: "\<forall>c \<in> set ?a. isWord c \<or> isSpace c \<or> c = HYPHEN"
    by (simp add: removeAll_re_def)
  have b: "\<forall>c \<in> set ?b. isWord c \<or> c = HYPHEN"
    using replaceRuns_set [of isSpace HYPHEN ?a] a by auto
  then have "\<forall>c \<in> set ?b. c < 128"
    using word_lower by blast
  then have "toLowerCase unicodeLower ?b = map asciiLower ?b"
    by (rule toLowerCase_ascii)
  then have "\<forall>c \<in> set (toLowerCase unicodeLower ?b). slugChar c"
    using b word_lower by auto
  then show ?thesis
    unfolding cleanClubName_def by (meson in_set_takeD)
qed

lemma cleanClubName_fixed:
  assumes "\<forall>c \<in> set s. slugChar c" and "length s \<le> 50"
  shows "cleanClubName unicodeLower s = s"
proof -
  have 1: "removeAll_re (\<lambda>c. \<not> (isWord c \<or> isSpace c \<or> c = HYPHEN)) s = s"
    using assms(1) slugChar_facts(4) by (auto simp: removeAll_re_def filter_id_conv)
  have 2: "replaceRuns isSpace HYPHEN s = s"
    using assms(1) slugChar_facts(3) by (intro replaceRuns_id) blast
  have 3: "toLowerCase unicodeLower s = s"
    using assms(1) slugChar_facts(1,2) by (simp add: toLowerCase_ascii map_idI)
  show ?thesis
    unfolding cleanClubName_def 1 2 3 using assms(2) by simp
qed

lemma cleanClubName_idem:
  "cleanClubName unicodeLower (cleanClubName unicodeLower s) = cleanClubName unicodeLower s"
  by (rule cleanClubName_fixed [OF cleanClubName_chars]) (simp add: cleanClubName_def)

lemma noRuns_Cons_other: "\<not> cls c \<Longrightarrow> noRuns cls (c # s) = noRuns cls s"
  by (cases s) simp_all

lemma noRuns_Cons_cls:
  "cls c \<Longrightarrow> noRuns cls (c # s) = ((s = [] \<or> \<not> cls (hd s)) \<and> noRuns cls s)"
  by (cases s) auto

lemma replaceRuns_hd:
  "s = [] \<or> \<not> cls (hd s)
     \<Longrightarrow> replaceRuns cls r s = [] \<or> \<not> cls (hd (replaceRuns cls r s))"
  by (cases s) auto

lemma dropWhile_hd: "dropWhile cls s = [] \<or> \<not> cls (hd (dropWhile cls s))"
  by (metis hd_dropWhile)

lemma replaceRuns_noRuns: "cls r \<Longrightarrow> noRuns cls (replaceRuns cls r s)"
proof (induction cls r s rule: replaceRuns.induct)
  case (1 cls r)
  show ?case by simp
next
  case (2 cls r c cs)
  show ?case
  proof (cases "cls c")
    case True
    have "noRuns cls (replaceRuns cls r (dropWhile cls cs))"
      using 2 True by simp
    moreover have "replaceRuns cls r (dropWhile cls cs) = []
        \<or> \<not> cls (hd (replaceRuns cls r (dropWhile cls cs)))"
      by (rule replaceRuns_hd [OF dropWhile_hd])
    ultimately show ?thesis
      using True "2.prems" by (simp add: noRuns_Cons_cls)
  next
    case False
    then show ?thesis
      using 2 by (simp add: noRuns_Cons_other)
  qed
qed

lemma replaceRuns_fixed:
  "noRuns cls s \<Longrightarrow> \<forall>c \<in> set s. cls c \<longrightarrow> c = r \<Longrightarrow> replaceRuns cls r s = s"
proof (induction s)
  case Nil
  show ?case by simp
next
  case (Cons c cs)
  show ?case
  proof (cases "cls c")
    case True
    then have h: "cs = [] \<or> \<not> cls (hd cs)" and n: "noRuns cls cs"
      using Cons.prems(1) by (simp_all add: noRuns_Cons_cls)
    from h have "dropWhile cls cs = cs"
      by (cases cs) auto
    then show ?thesis
      using True Cons n by simp
  next
    case False
    then show ?thesis
      using Cons by (simp add: noRuns_Cons_other)
  qed
qed

lemma noRuns_take: "noRuns cls s \<Longrightarrow> noRuns cls (take n s)"
proof (induction s arbitrary: n)
  case Nil
  show ?case by simp
next
  case (Cons c cs)
  show ?case
  proof (cases n)
    case 0
    then show ?thesis by simp
  next
    case (Suc m)
    show ?thesis
    proof (cases "cls c")
      case True
      then have h: "cs = [] \<or> \<not> cls (hd cs)" and n: "noRuns cls cs"
        using Cons.prems by (simp_all add: noRuns_Cons_cls)
      have "take m cs = [] \<or> \<not> cls (hd (take m cs))"
        using h by (cases m; cases cs) simp_all
      then show ?thesis
        using True Suc Cons.IH [OF n] by (simp add: noRuns_Cons_cls)
    next
      case False
      then have "noRuns cls cs"
        using Cons.prems by (simp add: noRuns_Cons_other)
      then show ?thesis
        using False Suc Cons.IH by (simp add: noRuns_Cons_other)
    qed
  qed
qed

lemma set_trim: "set (trim s) \<subseteq> set s"
proof -
  have "set (dropWhile isSpace (rev (dropWhile isSpace s))) \<subseteq> set (rev (dropWhile isSpace s))"
    by (rule set_dropWhileD [THEN subsetI])
  moreover have "set (dropWhile isSpace s) \<subseteq> set s"
    by (rule set_dropWhileD [THEN subsetI])
  ultimately show ?thesis
    by (auto simp: trim_def)
qed

lemma slugChar2_facts:
  "slugChar2 c \<Longrightarrow> c < 128"
  "slugChar2 c \<Longrightarrow> asciiLower c = c"
  "slugChar2 c \<Longrightarrow> \<not> isSpace c"
  by (auto simp: slugChar2_def isLowerAlnum_def asciiLower_def isSpace_def)

lemma slug_fixed:
  assumes "\<forall>c \<in> set s. slugChar2 c" and "noRuns (\<lambda>c. c = HYPHEN) s" and "length s \<le> 50"
  shows "slug unicodeLower s = s"
proof -
  have 0: "toLowerCase unicodeLower s = s"
    using assms(1) slugChar2_facts(1,2) by (simp add: toLowerCase_ascii map_idI)
  have 1: "removeAll_re (\<lambda>c. \<not> (isLowerAlnum c \<or> isSpace c \<or> c = HYPHEN)) s = s"
    using assms(1) by (auto simp: removeAll_re_def filter_id_conv slugChar2_def)
  have 2: "replaceRuns isSpace HYPHEN s = s"
    using assms(1) slugChar2_facts(3) by (intro replaceRuns_id) blast
  have 3: "replaceRuns (\<lambda>c. c = HYPHEN) HYPHEN s = s"
    using assms(2) by (intro replaceRuns_fixed) simp_all
  have 4: "trim s = s"
    using assms(1) slugChar2_facts(3) by (intro trim_id) blast
  show ?thesis
    unfolding slug_def 0 1 2 3 4 using assms(3) by simp
qed

lemma slug_shape:
  "(\<forall>c \<in> set (slug unicodeLower s). slugChar2 c)
   \<and> noRuns (\<lambda>c. c = HYPHEN) (slug unicodeLower s)
   \<and> length (slug unicodeLower s) \<le> 50"
proof -
  let ?a = "removeAll_re (\<lambda>c. \<not> (isLowerAlnum c \<or> isSpace c \<or> c = HYPHEN))
              (toLowerCase unicodeLower s)"
  let ?b = "replaceRuns isSpace HYPHEN ?a"
  let ?c = "replaceRuns (\<lambda>c. c = HYPHEN) HYPHEN ?b"
  have a: "\<forall>c \<in> set ?a. isLowerAlnum c \<or> isSpace c \<or> c = HYPHEN"
    by (simp add: removeAll_re_def)
  have b: "\<forall>c \<in> set ?b. slugChar2 c"
    using replaceRuns_set [of isSpace HYPHEN ?a] a by (auto simp: slugChar2_def)
  have c: "\<forall>c \<in> set ?c. slugChar2 c"
    using replaceRuns_set [of "\<lambda>c. c = HYPHEN" HYPHEN ?b] b by (auto simp: slugChar2_def)
  then have t: "trim ?c = ?c"
    using slugChar2_facts(3) by (intro trim_id) blast
  have n: "noRuns (\<lambda>c. c = HYPHEN) ?c"
    by (rule replaceRuns_noRuns) simp
  have e: "slug unicodeLower s = take 50 ?c"
    unfolding slug_def t by (rule refl)
  show ?thesis
    unfolding e using c n by (auto intro: noRuns_take dest: in_set_takeD)
qed

lemma slug_idem: "slug unicodeLower (slug unicodeLower s) = slug unicodeLower s"
  using slug_shape [of unicodeLower s] by (intro slug_fixed) simp_all

text \<open>
  C9: name cleaning is idempotent.  For every input string, and whatever the Unicode
  case mapping does outside ASCII, \<open>cleanClubName\<close> (the cleaned name of the server) and
  the slug computed by \<open>processImage\<close> both return their own output unchanged when they
  are applied to it.
\<close>

theorem slug_idempotent:
  "cleanClubName unicodeLower (cleanClubName unicodeLower s) = cleanClubName unicodeLower s
   \<and> slug unicodeLower (slug unicodeLower s) = slug unicodeLower s"
  by (simp add: cleanClubName_idem slug_idem)

theorem slug_idempotent_witness:
  "cleanClubName id (str ''The  Big!! Club'') = str ''the-big-club''
   \<and> cleanClubName id (str ''the-big-club'') = str ''the-big-club''
   \<and> slug id (str '' A -- b_c '') = str ''-a-bc-''
   \<and> slug id (str ''-a-bc-'') = str ''-a-bc-''"
proof -
  have c: "cleanClubName id (str ''The  Big!! Club'') = str ''the-big-club''"
    by (simp add: cleanClubName_def removeAll_re_def toLowerCase_def asciiLower_def
        isWord_def isSpace_def str_def)
  have s: "slug id (str '' A -- b_c '') = str ''-a-bc-''"
    by (simp add: slug_def removeAll_re_def toLowerCase_def asciiLower_def
        isLowerAlnum_def isSpace_def trim_def str_def)
  show ?thesis
    using slug_idempotent [of id "str ''The  Big!! Club''"]
      slug_idempotent [of id "str '' A -- b_c ''"]
    unfolding c s by (simp add: c s)
qed

section \<open>Extraction of clubs: what the test on the image columns lets through\<close>

lemmas extract_eval =
  parseCSV_def extractClub_def cleanClubName_def removeAll_re_def toLowerCase_def asciiLower_def
  isWord_def exampleUrl_def

text \<open>
  C1: the claim is that every club that \<open>parseCSV\<close> returns has a hero image, a logo
  image or at least one gallery image.  The code tests the gallery column for being
  non-blank only, before its entries are validated: on a file whose only data row has
  empty hero and logo columns and the gallery column \<open>n/a\<close>, \<open>parseCSV\<close> returns one club,
  with no hero image, no logo image and no gallery image.
\<close>

theorem parseCSV_club_without_images:
  "map (\<lambda>c. (club.name c, heroImage c, logoImage c, galleryImages c))
     (parseCSV exampleUrl id (str ''h\<newline>,,,,,,,,,,,,,,,,,,,,,,,,,,,,,n/a''))
   = [(str ''unknown-club'', None, None, [])]"
  by (simp add: scan_eval extract_eval)

section \<open>Cleaned names and storage keys\<close>

lemma extractClub_name:
  "extractClub isValidUrl unicodeLower values = Some c
     \<Longrightarrow> club.name c = cleanClubName unicodeLower
           (if values ! 10 \<noteq> [] then values ! 10 else str ''Unknown Club'')"
  by (auto simp: extractClub_def Let_def split: if_splits)

lemma cleanClubName_default:
  "cleanClubName unicodeLower (str ''Unknown Club'') = str ''unknown-club''"
  by (simp add: cleanClubName_def removeAll_re_def toLowerCase_def asciiLower_def
      isWord_def isSpace_def str_def)

lemma cleanClubName_case:
  "cleanClubName unicodeLower (str ''Philly Run Club'') = cleanClubName unicodeLower (str ''philly run club!'')"
  by (simp add: cleanClubName_def removeAll_re_def toLowerCase_def asciiLower_def
      isWord_def isSpace_def str_def)

lemma process_store:
  assumes "processImageToCloudinary (storeExternals answer resize) store imageUrl clubName t targetWidth
             = (Inr p, store')"
  shows "publicId p = storageKey clubName t
         \<and> (\<exists>bytes. store' = store(storageKey clubName t \<mapsto> bytes))"
  using assms
  by (auto simp: processImageToCloudinary_def storeExternals_def storeUpload_def
      split: if_splits sum.splits prod.splits)

lemma process_upload:
  assumes "processImageToCloudinary X w url clubName role targetWidth = (Inr p, w')"
  shows "\<exists>w1 bytes result.
           upload_stream X w1 (str ''joinphilly/'' @ clubName @ str ''-'' @ typeName role) role bytes
             = (Inr result, w')
           \<and> publicId p = public_id result \<and> cloudinaryUrl p = secure_url result"
proof -
  from assms obtain response w1 imageBuffer processedBuffer result where
    "upload_stream X w1 (storageKey clubName role) role processedBuffer = (Inr result, w')"
    "publicId p = public_id result" "cloudinaryUrl p = secure_url result"
    by (auto simp: processImageToCloudinary_def split: if_splits sum.splits prod.splits)
  then show ?thesis
    unfolding storageKey_def by blast
qed

lemma replaceRuns_all:
  "s \<noteq> [] \<Longrightarrow> list_all cls s \<Longrightarrow> replaceRuns cls r s = [r]"
proof (cases s)
  case Nil
  assume "s \<noteq> []"
  with Nil show ?thesis by simp
next
  case (Cons c cs)
  assume "list_all cls s"
  then have c: "cls c" and d: "dropWhile cls cs = []"
    using Cons by (simp_all add: list_all_iff)
  show ?thesis
    by (simp add: Cons c d)
qed

lemma cleanClubName_spaces:
  assumes "s \<noteq> []" "list_all isSpace s"
  shows "cleanClubName unicodeLower s = str ''-''"
proof -
  have "removeAll_re (\<lambda>c. \<not> (isWord c \<or> isSpace c \<or> c = HYPHEN)) s = s"
    using assms(2) by (simp add: removeAll_re_def list_all_iff)
  then show ?thesis
    using replaceRuns_all [OF assms, of HYPHEN]
    by (simp add: cleanClubName_def toLowerCase_def asciiLower_def str_def)
qed

text \<open>
  C10 as it is stated fails for a club-name column that is blank but not empty.  In the
  CSV below the first data row has two spaces in the club-name column and the second
  has an empty one, and each has a hero image.  The first club is named \<open>-\<close>, not
  \<open>unknown-club\<close>, the two hero images are published under different keys, and the
  second upload does not overwrite the first.
\<close>

theorem whitespace_name_is_not_default:
  "map club.name
     (parseCSV exampleUrl id
        (str ''h\<newline>,,,,,,,,,,  ,,,,,,,,,,,,,,,,,https://a/1,,\<newline>,,,,,,,,,,,,,,,,,,,,,,,,,,,https://a/2,,''))
     = [str ''-'', str ''unknown-club'']
   \<and> snd (processClubs (storeExternals echo (\<lambda>bytes targetWidth. Inr bytes)) Map.empty
        (parseCSV exampleUrl id
          (str ''h\<newline>,,,,,,,,,,  ,,,,,,,,,,,,,,,,,https://a/1,,\<newline>,,,,,,,,,,,,,,,,,,,,,,,,,,,https://a/2,,'')))
     = [str ''joinphilly/--hero'' \<mapsto> str ''https://a/1'',
        str ''joinphilly/unknown-club-hero'' \<mapsto> str ''https://a/2'']"
proof -
  let ?csv = "str ''h\<newline>,,,,,,,,,,  ,,,,,,,,,,,,,,,,,https://a/1,,\<newline>,,,,,,,,,,,,,,,,,,,,,,,,,,,https://a/2,,''"
  let ?v1 = "[[], [], [], [], [], [], [], [], [], [], str ''  '', [], [], [], [], [], [], [], [], [], [], [], [], [], [], [], [],
      str ''https://a/1'', [], []]"
  let ?v2 = "[[], [], [], [], [], [], [], [], [], [], [], [], [], [], [], [], [], [], [], [], [], [], [], [], [], [], [],
      str ''https://a/2'', [], []]"
  let ?X = "storeExternals echo (\<lambda>bytes targetWidth. Inr bytes)"
  define c1 where "c1 = the (extractClub exampleUrl id ?v1)"
  define c2 where "c2 = the (extractClub exampleUrl id ?v2)"
  have rows: "parseRows ?csv = [[str ''h''], ?v1, ?v2]"
    by (simp add: scan_eval)
  have e1: "extractClub exampleUrl id ?v1 = Some c1"
    by (simp add: c1_def extractClub_def Let_def exampleUrl_def str_def trim_def)
  have e2: "extractClub exampleUrl id ?v2 = Some c2"
    by (simp add: c2_def extractClub_def Let_def exampleUrl_def str_def trim_def)
  have h1: "heroImage c1 = Some (str ''https://a/1'')" "logoImage c1 = None" "galleryImages c1 = []"
    by (simp_all add: c1_def extractClub_def Let_def exampleUrl_def str_def trim_def)
  have h2: "heroImage c2 = Some (str ''https://a/2'')" "logoImage c2 = None" "galleryImages c2 = []"
    by (simp_all add: c2_def extractClub_def Let_def exampleUrl_def str_def trim_def)
  have clubs: "parseCSV exampleUrl id ?csv = [c1, c2]"
    by (simp add: parseCSV_def rows e1 e2)
  have n1: "club.name c1 = str ''-''"
    using extractClub_name [OF e1]
    by (simp add: cleanClubName_def removeAll_re_def toLowerCase_def asciiLower_def
        isWord_def isSpace_def str_def)
  have n2: "club.name c2 = str ''unknown-club''"
    using extractClub_name [OF e2] by (simp add: cleanClubName_default)
  have "snd (processClubs ?X Map.empty [c1, c2])
          = [str ''joinphilly/--hero'' \<mapsto> str ''https://a/1'',
             str ''joinphilly/unknown-club-hero'' \<mapsto> str ''https://a/2'']"
    by (simp add: processClub_def galleryLoop.simps trySlot_def processImageToCloudinary_def
        storeExternals_def storeUpload_def echo_def storageKey_def typeName_def h1 h2 n1 n2 str_def)
  then show ?thesis
    by (simp add: clubs n1 n2)
qed

text \<open>
  C10 (as amended): cleaned names collide, and the storage key is a function of the
  cleaned name and the role only.
  \<^item> \<open>cleanClubName\<close> is not injective.
  \<^item> Two rows with an empty club-name column that give clubs both get the name
    \<open>unknown-club\<close>, hence the same \<open>public_id\<close> for every role.
  \<^item> In a store addressed by key, two successful uploads for the same cleaned name and
    role leave the store as it was before the first one, with the bytes of the second
    under the key: the first asset is overwritten.
  \<^item> The key is \<open>joinphilly/\<close>, the cleaned name, a hyphen and the role (\<open>hero\<close>, \<open>logo\<close>,
    \<open>gallery-1\<close> to \<open>gallery-4\<close>); for one role, different cleaned names give different
    keys.
  \<^item> Whatever the outside world, an image that is processed has been uploaded under
    exactly that key.
  \<^item> A club-name column that is not empty and holds white space only gives the name
    \<open>-\<close>, not \<open>unknown-club\<close>.
\<close>

theorem shared_storage_key:
  "(\<exists>s t. s \<noteq> t \<and> cleanClubName unicodeLower s = cleanClubName unicodeLower t)
   \<and> (\<forall>values1 values2 c1 c2 role.
          extractClub isValidUrl unicodeLower values1 = Some c1
          \<and> extractClub isValidUrl unicodeLower values2 = Some c2
          \<and> values1 ! 10 = [] \<and> values2 ! 10 = []
        \<longrightarrow> club.name c1 = str ''unknown-club'' \<and> club.name c2 = str ''unknown-club''
            \<and> storageKey (club.name c1) role = storageKey (club.name c2) role)
   \<and> (\<forall>store url1 url2 clubName role width1 width2 p1 p2 store1 store2.
          processImageToCloudinary (storeExternals answer resize) store url1 clubName role width1
            = (Inr p1, store1)
          \<and> processImageToCloudinary (storeExternals answer resize) store1 url2 clubName role width2
            = (Inr p2, store2)
        \<longrightarrow> publicId p1 = storageKey clubName role \<and> publicId p2 = storageKey clubName role
            \<and> (\<exists>bytes1. store1 (storageKey clubName role) = Some bytes1)
            \<and> (\<exists>bytes2. store2 = store(storageKey clubName role \<mapsto> bytes2)))
   \<and> (\<forall>clubName clubName' role.
          storageKey clubName role = str ''joinphilly/'' @ clubName @ str ''-'' @ typeName role
          \<and> (storageKey clubName role = storageKey clubName' role \<longleftrightarrow> clubName = clubName'))
   \<and> typeName Hero = str ''hero'' \<and> typeName Logo = str ''logo''
   \<and> map (\<lambda>n. typeName (Gallery n)) [1, 2, 3, 4]
        = [str ''gallery-1'', str ''gallery-2'', str ''gallery-3'', str ''gallery-4'']
   \<and> (\<forall>X w url clubName role targetWidth p w'.
          processImageToCloudinary X w url clubName role targetWidth = (Inr p, w')
        \<longrightarrow> (\<exists>w1 bytes result.
               upload_stream X w1 (str ''joinphilly/'' @ clubName @ str ''-'' @ typeName role) role bytes
                 = (Inr result, w')
               \<and> publicId p = public_id result \<and> cloudinaryUrl p = secure_url result))
   \<and> (\<forall>values c.
          extractClub isValidUrl unicodeLower values = Some c
          \<and> values ! 10 \<noteq> [] \<and> list_all isSpace (values ! 10)
        \<longrightarrow> club.name c = str ''-'')"
proof (intro conjI allI impI)
  have "str ''Philly Run Club'' \<noteq> str ''philly run club!''"
    by (simp add: str_def)
  then show "\<exists>s t. s \<noteq> t \<and> cleanClubName unicodeLower s = cleanClubName unicodeLower t"
    using cleanClubName_case by blast
next
  fix values1 values2 c1 c2 role
  assume a: "extractClub isValidUrl unicodeLower values1 = Some c1
          \<and> extractClub isValidUrl unicodeLower values2 = Some c2
          \<and> values1 ! 10 = [] \<and> values2 ! 10 = []"
  show n1: "club.name c1 = str ''unknown-club''"
    using a extractClub_name [of isValidUrl unicodeLower values1 c1]
    by (simp add: cleanClubName_default)
  show n2: "club.name c2 = str ''unknown-club''"
    using a extractClub_name [of isValidUrl unicodeLower values2 c2]
    by (simp add: cleanClubName_default)
  show "storageKey (club.name c1) role = storageKey (club.name c2) role"
    by (simp add: n1 n2)
next
  fix store url1 url2 clubName role width1 width2 p1 p2 store1 store2
  assume a: "processImageToCloudinary (storeExternals answer resize) store url1 clubName role width1
            = (Inr p1, store1)
          \<and> processImageToCloudinary (storeExternals answer resize) store1 url2 clubName role width2
            = (Inr p2, store2)"
  from a obtain bytes1 where 1: "publicId p1 = storageKey clubName role"
      "store1 = store(storageKey clubName role \<mapsto> bytes1)"
    using process_store by blast
  from a obtain bytes2 where 2: "publicId p2 = storageKey clubName role"
      "store2 = store1(storageKey clubName role \<mapsto> bytes2)"
    using process_store by blast
  show "publicId p1 = storageKey clubName role" by (rule 1)
  show "publicId p2 = storageKey clubName role" by (rule 2)
  show "\<exists>bytes1. store1 (storageKey clubName role) = Some bytes1"
    using 1 by simp
  have "store2 = store(storageKey clubName role \<mapsto> bytes2)"
    using 1 2 by simp
  then show "\<exists>bytes2. store2 = store(storageKey clubName role \<mapsto> bytes2)"
    by (rule exI)
next
  fix clubName clubName' role
  show "storageKey clubName role = str ''joinphilly/'' @ clubName @ str ''-'' @ typeName role"
    by (simp add: storageKey_def)
  show "storageKey clubName role = storageKey clubName' role \<longleftrightarrow> clubName = clubName'"
    by (simp add: storageKey_def)
next
  show "typeName Hero = str ''hero''" "typeName Logo = str ''logo''"
    by (simp_all add: typeName_def)
  show "map (\<lambda>n. typeName (Gallery n)) [1, 2, 3, 4]
        = [str ''gallery-1'', str ''gallery-2'', str ''gallery-3'', str ''gallery-4'']"
    by (simp add: typeName_def str_def)
next
  fix X :: "'c externals" and w :: 'c and url clubName role targetWidth p w'
  assume "processImageToCloudinary X w url clubName role targetWidth = (Inr p, w')"
  then show "\<exists>w1 bytes result.
               upload_stream X w1 (str ''joinphilly/'' @ clubName @ str ''-'' @ typeName role) role bytes
                 = (Inr result, w')
               \<and> publicId p = public_id result \<and> cloudinaryUrl p = secure_url result"
    by (rule process_upload)
next
  fix row c
  assume a: "extractClub isValidUrl unicodeLower row = Some c
          \<and> row ! 10 \<noteq> [] \<and> list_all isSpace (row ! 10)"
  then show "club.name c = str ''-''"
    using extractClub_name [of isValidUrl unicodeLower row c]
    by (simp add: cleanClubName_spaces)
qed

theorem shared_storage_key_witness:
  "map club.name
     (parseCSV exampleUrl id
        (str ''h\<newline>,,,,,,,,,,,,,,,,,,,,,,,,,,,https://a/1,,\<newline>,,,,,,,,,,,,,,,,,,,,,,,,,,,https://a/2,,\<newline>,,,,,,,,,, ,,,,,,,,,,,,,,,,,,https://a/3,''))
     = [str ''unknown-club'', str ''unknown-club'', str ''-'']
   \<and> snd (processClubs (storeExternals echo (\<lambda>bytes targetWidth. Inr bytes)) Map.empty
        (parseCSV exampleUrl id
          (str ''h\<newline>,,,,,,,,,,,,,,,,,,,,,,,,,,,https://a/1,,\<newline>,,,,,,,,,,,,,,,,,,,,,,,,,,,https://a/2,,\<newline>,,,,,,,,,, ,,,,,,,,,,,,,,,,,,https://a/3,'')))
     = [str ''joinphilly/unknown-club-hero'' \<mapsto> str ''https://a/2'',
        str ''joinphilly/--logo'' \<mapsto> str ''https://a/3'']"
proof -
  let ?csv = "str ''h\<newline>,,,,,,,,,,,,,,,,,,,,,,,,,,,https://a/1,,\<newline>,,,,,,,,,,,,,,,,,,,,,,,,,,,https://a/2,,\<newline>,,,,,,,,,, ,,,,,,,,,,,,,,,,,,https://a/3,''"
  let ?v1 = "[[], [], [], [], [], [], [], [], [], [], [], [], [], [], [], [], [], [], [], [], [], [], [], [], [], [], [],
      str ''https://a/1'', [], []]"
  let ?v2 = "[[], [], [], [], [], [], [], [], [], [], [], [], [], [], [], [], [], [], [], [], [], [], [], [], [], [], [],
      str ''https://a/2'', [], []]"
  let ?v3 = "[[], [], [], [], [], [], [], [], [], [], str '' '', [], [], [], [], [], [], [], [], [], [], [], [], [], [], [], [], [],
      str ''https://a/3'', []]"
  let ?X = "storeExternals echo (\<lambda>bytes targetWidth. Inr bytes)"
  define c1 where "c1 = the (extractClub exampleUrl id ?v1)"
  define c2 where "c2 = the (extractClub exampleUrl id ?v2)"
  define c3 where "c3 = the (extractClub exampleUrl id ?v3)"
  have rows: "parseRows ?csv = [[str ''h''], ?v1, ?v2, ?v3]"
    by (simp add: scan_eval)
  have e1: "extractClub exampleUrl id ?v1 = Some c1"
    by (simp add: c1_def extractClub_def Let_def exampleUrl_def str_def trim_def)
  have e2: "extractClub exampleUrl id ?v2 = Some c2"
    by (simp add: c2_def extractClub_def Let_def exampleUrl_def str_def trim_def)
  have e3: "extractClub exampleUrl id ?v3 = Some c3"
    by (simp add: c3_def extractClub_def Let_def exampleUrl_def str_def trim_def)
  have h1: "heroImage c1 = Some (str ''https://a/1'')" "logoImage c1 = None" "galleryImages c1 = []"
    by (simp_all add: c1_def extractClub_def Let_def exampleUrl_def str_def trim_def)
  have h2: "heroImage c2 = Some (str ''https://a/2'')" "logoImage c2 = None" "galleryImages c2 = []"
    by (simp_all add: c2_def extractClub_def Let_def exampleUrl_def str_def trim_def)
  have h3: "heroImage c3 = None" "logoImage c3 = Some (str ''https://a/3'')" "galleryImages c3 = []"
    by (simp_all add: c3_def extractClub_def Let_def exampleUrl_def str_def trim_def)
  have clubs: "parseCSV exampleUrl id ?csv = [c1, c2, c3]"
    by (simp add: parseCSV_def rows e1 e2 e3)
  note T = shared_storage_key [of id exampleUrl]
  have n: "club.name c1 = str ''unknown-club'' \<and> club.name c2 = str ''unknown-club''"
    using T [THEN conjunct2, THEN conjunct1, rule_format, of ?v1 c1 ?v2 c2 Hero] e1 e2
    by simp
  have sp: "?v3 ! 10 \<noteq> [] \<and> list_all isSpace (?v3 ! 10)"
    by (simp add: str_def isSpace_def)
  have n3: "club.name c3 = str ''-''"
    using T [THEN conjunct2, THEN conjunct2, THEN conjunct2, THEN conjunct2, THEN conjunct2,
        THEN conjunct2, THEN conjunct2, THEN conjunct2, rule_format, of ?v3 c3] e3 sp
    by blast
  have "snd (processClubs ?X Map.empty [c1, c2, c3])
          = [str ''joinphilly/unknown-club-hero'' \<mapsto> str ''https://a/2'',
             str ''joinphilly/--logo'' \<mapsto> str ''https://a/3'']"
    by (simp add: processClub_def galleryLoop.simps trySlot_def processImageToCloudinary_def
        storeExternals_def storeUpload_def echo_def storageKey_def typeName_def h1 h2 h3 n n3 str_def)
  then show ?thesis
    by (simp add: clubs n n3)
qed

section \<open>The first loop of the handler: every slot is settled\<close>

declare galleryLoop.simps [simp del]

lemma galleryLoop_stop:
  "\<not> (i < length (galleryImages c) \<and> i < 4) \<Longrightarrow> galleryLoop X c i s = s"
  by (subst galleryLoop.simps) (rule if_not_P)

lemma galleryLoop_step:
  "i < length (galleryImages c) \<and> i < 4 \<Longrightarrow>
   galleryLoop X c i s =
     galleryLoop X c (i + 1)
       (if galleryImages c ! i \<noteq> []
        then trySlot X (GalleryImage (i + 1)) (galleryImages c ! i) (club.name c) (Gallery (i + 1)) 1200 s
        else s)"
  by (subst galleryLoop.simps) (simp add: Let_def)

lemma trySlot_settled:
  "settled (fst (trySlot X label imageUrl clubName t targetWidth s)) = Suc (settled (fst s))"
  by (cases s) (auto simp: trySlot_def settled_def split: prod.splits sum.splits)

lemma trySlot_identity:
  "clubResult.name (fst (trySlot X label imageUrl clubName t targetWidth s)) = clubResult.name (fst s)
   \<and> cleanName (fst (trySlot X label imageUrl clubName t targetWidth s)) = cleanName (fst s)"
  by (cases s) (auto simp: trySlot_def split: prod.splits sum.splits)

lemma galleryLoop_settled:
  "settled (fst (galleryLoop X c i s))
     = settled (fst s) + length (filter (\<lambda>u. u \<noteq> []) (drop i (take 4 (galleryImages c))))"
proof (induction X c i s rule: galleryLoop.induct)
  case (1 X c i s)
  show ?case
  proof (cases "i < length (galleryImages c) \<and> i < 4")
    case True
    then have i: "i < length (take 4 (galleryImages c))"
      by simp
    have d: "drop i (take 4 (galleryImages c))
               = galleryImages c ! i # drop (Suc i) (take 4 (galleryImages c))"
      using Cons_nth_drop_Suc [OF i] True by simp
    show ?thesis
      using "1.IH" [OF True]
      by (simp add: galleryLoop_step [OF True] d Let_def trySlot_settled)
  next
    case False
    then have "drop i (take 4 (galleryImages c)) = []"
      by auto
    then show ?thesis
      by (simp add: galleryLoop_stop [OF False])
  qed
qed

lemma galleryLoop_identity:
  "clubResult.name (fst (galleryLoop X c i s)) = clubResult.name (fst s)
   \<and> cleanName (fst (galleryLoop X c i s)) = cleanName (fst s)"
proof (induction X c i s rule: galleryLoop.induct)
  case (1 X c i s)
  show ?case
  proof (cases "i < length (galleryImages c) \<and> i < 4")
    case True
    show ?thesis
      using "1.IH" [OF True]
      by (simp add: galleryLoop_step [OF True] Let_def trySlot_identity)
  next
    case False
    then show ?thesis
      by (simp add: galleryLoop_stop [OF False])
  qed
qed

lemma processClub_settled:
  "settled (fst (processClub X w c)) = populatedSlots c"
proof -
  let ?r0 = "\<lparr>clubResult.name = originalName c, cleanName = club.name c,
               submissionId = club.submissionId c, email = club.email c,
               processed = [], errors = [], cloudinaryUrls = [], airtableUpdate = None\<rparr>"
  let ?s1 = "case heroImage c of
                 Some u \<Rightarrow> if u \<noteq> [] then trySlot X HeroImage u (club.name c) Hero 1600 (?r0, w)
                           else (?r0, w)
               | None \<Rightarrow> (?r0, w)"
  let ?s2 = "case logoImage c of
                 Some u \<Rightarrow> if u \<noteq> [] then trySlot X LogoImage u (club.name c) Logo 400 ?s1 else ?s1
               | None \<Rightarrow> ?s1"
  have 0: "settled ?r0 = 0"
    by (simp add: settled_def)
  have 1: "settled (fst ?s1) = (case heroImage c of None \<Rightarrow> 0 | Some u \<Rightarrow> if u \<noteq> [] then 1 else 0)"
    using 0 by (simp add: trySlot_settled split: option.splits)
  have 2: "settled (fst ?s2) = settled (fst ?s1)
             + (case logoImage c of None \<Rightarrow> 0 | Some u \<Rightarrow> if u \<noteq> [] then 1 else 0)"
    by (simp add: trySlot_settled split: option.splits)
  have "processClub X w c = galleryLoop X c 0 ?s2"
    by (simp add: processClub_def Let_def)
  then show ?thesis
    by (simp add: galleryLoop_settled 1 2 populatedSlots_def)
qed

lemma processClub_identity:
  "clubResult.name (fst (processClub X w c)) = originalName c
   \<and> cleanName (fst (processClub X w c)) = club.name c"
  by (simp add: processClub_def Let_def galleryLoop_identity trySlot_identity split: option.splits)

lemma processClubs_each:
  "list_all2
     (\<lambda>c r. clubResult.name r = originalName c \<and> cleanName r = club.name c
            \<and> length (processed r) + length (errors r) = populatedSlots c)
     clubs (fst (processClubs X w clubs))"
proof (induction clubs arbitrary: w)
  case Nil
  show ?case by simp
next
  case (Cons c rest)
  obtain r w1 where p: "processClub X w c = (r, w1)"
    by (cases "processClub X w c")
  obtain rs w2 where ps: "processClubs X w1 rest = (rs, w2)"
    by (cases "processClubs X w1 rest")
  have "clubResult.name r = originalName c \<and> cleanName r = club.name c
          \<and> length (processed r) + length (errors r) = populatedSlots c"
    using processClub_identity [of X w c] processClub_settled [of X w c] p
    by (simp add: settled_def)
  moreover have "list_all2
     (\<lambda>c r. clubResult.name r = originalName c \<and> cleanName r = club.name c
            \<and> length (processed r) + length (errors r) = populatedSlots c) rest rs"
    using Cons.IH [of w1] ps by simp
  ultimately show ?case
    by (simp add: p ps)
qed

lemma processImage_type:
  "processImageToCloudinary X w imageUrl clubName t targetWidth = (Inr p, w')
     \<Longrightarrow> type p = t \<and> originalUrl p = imageUrl"
  by (auto simp: processImageToCloudinary_def split: if_splits sum.splits prod.splits)

lemma hero_fails_logo_succeeds:
  assumes "heroImage c = Some h" "h \<noteq> []" "logoImage c = Some l" "l \<noteq> []" "galleryImages c = []"
    and "processImageToCloudinary X w h (club.name c) Hero 1600 = (Inl e, w1)"
    and "processImageToCloudinary X w1 l (club.name c) Logo 400 = (Inr a, w2)"
  shows "processed (fst (processClub X w c)) = [a]
         \<and> errors (fst (processClub X w c)) = [(HeroImage, e)]
         \<and> cloudinaryUrls (fst (processClub X w c)) = [cloudinaryUrl a]
         \<and> snd (processClub X w c) = w2"
  using assms by (simp add: processClub_def Let_def trySlot_def galleryLoop_stop)

lemma recordOutcomes_Nil: "recordOutcomes r [] = r"
  by (simp add: recordOutcomes_def successes_def failures_def)

lemma recordOutcomes_Cons:
  "recordOutcomes r (x # outcomes) = recordOutcomes (recordOutcomes r [x]) outcomes"
  by (simp add: recordOutcomes_def successes_def failures_def)

lemma trySlot_outcome:
  "trySlot X label imageUrl clubName t targetWidth (r, w)
     = (recordOutcomes r [(label, fst (processImageToCloudinary X w imageUrl clubName t targetWidth))],
        snd (processImageToCloudinary X w imageUrl clubName t targetWidth))"
  by (auto simp: trySlot_def recordOutcomes_def successes_def failures_def
      split: prod.splits sum.splits)

lemma gallerySlotsFrom_stop:
  "\<not> (i < length (galleryImages c) \<and> i < 4) \<Longrightarrow> gallerySlotsFrom c i = []"
  by (auto simp: gallerySlotsFrom_def)

lemma gallerySlotsFrom_step:
  "i < length (galleryImages c) \<and> i < 4 \<Longrightarrow>
   gallerySlotsFrom c i
     = (if galleryImages c ! i \<noteq> []
        then [(GalleryImage (i + 1), galleryImages c ! i, Gallery (i + 1), 1200)] else [])
       @ gallerySlotsFrom c (Suc i)"
  by (simp add: gallerySlotsFrom_def upt_conv_Cons)

lemma galleryLoop_outcomes:
  "galleryLoop X c i (r, w)
     = (recordOutcomes r (fst (attemptAll X (club.name c) w (gallerySlotsFrom c i))),
        snd (attemptAll X (club.name c) w (gallerySlotsFrom c i)))"
proof (induction "4 - i" arbitrary: i r w)
  case 0
  then have stop: "\<not> (i < length (galleryImages c) \<and> i < 4)"
    by simp
  show ?case
    by (simp add: galleryLoop_stop [OF stop] gallerySlotsFrom_stop [OF stop] recordOutcomes_Nil)
next
  case (Suc n)
  show ?case
  proof (cases "i < length (galleryImages c) \<and> i < 4")
    case False
    show ?thesis
      by (simp add: galleryLoop_stop [OF False] gallerySlotsFrom_stop [OF False] recordOutcomes_Nil)
  next
    case True
    have n: "n = 4 - Suc i"
      using Suc.hyps(2) by simp
    note IH = Suc.hyps(1) [OF n]
    show ?thesis
    proof (cases "galleryImages c ! i \<noteq> []")
      case False
      then show ?thesis
        using IH [of r w]
        by (simp add: galleryLoop_step [OF True] gallerySlotsFrom_step [OF True])
    next
      case True
      note url = True
      let ?p = "processImageToCloudinary X w (galleryImages c ! i) (club.name c) (Gallery (i + 1)) 1200"
      show ?thesis
        using IH [of "recordOutcomes r [(GalleryImage (i + 1), fst ?p)]" "snd ?p"] url
        by (simp add: galleryLoop_step [OF \<open>i < length (galleryImages c) \<and> i < 4\<close>]
            gallerySlotsFrom_step [OF \<open>i < length (galleryImages c) \<and> i < 4\<close>]
            trySlot_outcome case_prod_beta recordOutcomes_Cons [symmetric])
    qed
  qed
qed

lemma attemptAll_append:
  "attemptAll X clubName w (xs @ ys)
     = (fst (attemptAll X clubName w xs)
          @ fst (attemptAll X clubName (snd (attemptAll X clubName w xs)) ys),
        snd (attemptAll X clubName (snd (attemptAll X clubName w xs)) ys))"
  by (induction xs arbitrary: w) (auto simp: case_prod_beta)

lemma recordOutcomes_append:
  "recordOutcomes r (xs @ ys) = recordOutcomes (recordOutcomes r xs) ys"
  by (simp add: recordOutcomes_def successes_def failures_def)

lemma processClub_outcomes:
  "processClub X w c
     = (recordOutcomes
          \<lparr>name = originalName c, cleanName = club.name c,
            submissionId = club.submissionId c, email = club.email c,
            processed = [], errors = [], cloudinaryUrls = [], airtableUpdate = None\<rparr>
          (fst (attemptAll X (club.name c) w (slots c))),
        snd (attemptAll X (club.name c) w (slots c)))"
proof -
  let ?r0 = "\<lparr>clubResult.name = originalName c, cleanName = club.name c,
               submissionId = club.submissionId c, email = club.email c,
               processed = [], errors = [], cloudinaryUrls = [], airtableUpdate = None\<rparr>"
  let ?hero = "case heroImage c of
       None \<Rightarrow> []
     | Some u \<Rightarrow> if u \<noteq> [] then [(HeroImage, u, Hero, 1600)] else []"
  let ?logo = "case logoImage c of
         None \<Rightarrow> []
       | Some u \<Rightarrow> if u \<noteq> [] then [(LogoImage, u, Logo, 400)] else []"
  let ?s1 = "case heroImage c of
                 Some u \<Rightarrow> if u \<noteq> [] then trySlot X HeroImage u (club.name c) Hero 1600 (?r0, w)
                           else (?r0, w)
               | None \<Rightarrow> (?r0, w)"
  let ?s2 = "case logoImage c of
                 Some u \<Rightarrow> if u \<noteq> [] then trySlot X LogoImage u (club.name c) Logo 400 ?s1 else ?s1
               | None \<Rightarrow> ?s1"
  let ?a1 = "attemptAll X (club.name c) w ?hero"
  let ?a2 = "attemptAll X (club.name c) (snd ?a1) ?logo"
  have 1: "?s1 = (recordOutcomes ?r0 (fst ?a1), snd ?a1)"
    by (simp add: trySlot_outcome recordOutcomes_Nil case_prod_beta split: option.splits)
  have 2: "?s2 = (recordOutcomes (recordOutcomes ?r0 (fst ?a1)) (fst ?a2), snd ?a2)"
    unfolding 1
    by (simp add: trySlot_outcome recordOutcomes_Nil case_prod_beta split: option.splits)
  have s: "slots c = ?hero @ ?logo @ gallerySlotsFrom c 0"
    by (simp add: slots_def gallerySlotsFrom_def)
  have "processClub X w c = galleryLoop X c 0 ?s2"
    by (simp add: processClub_def Let_def)
  then show ?thesis
    unfolding 2 galleryLoop_outcomes s attemptAll_append [of X "club.name c" w ?hero]
      attemptAll_append [of X "club.name c" "snd ?a1" ?logo]
    by (simp add: recordOutcomes_append)
qed

lemma processClubs_nth:
  "i < length clubs \<Longrightarrow>
   fst (processClubs X w clubs) ! i
     = fst (processClub X (snd (processClubs X w (take i clubs))) (clubs ! i))"
proof (induction clubs arbitrary: w i)
  case Nil
  then show ?case by simp
next
  case (Cons c rest)
  show ?case
  proof (cases i)
    case 0
    then show ?thesis
      by (simp add: case_prod_beta)
  next
    case (Suc j)
    then show ?thesis
      using Cons.IH [of j "snd (processClub X w c)"] Cons.prems
      by (simp add: case_prod_beta)
  qed
qed

text \<open>
  C2: the first loop of the handler gives one result per club, in the order of the
  clubs, and every populated slot of a club is settled in its result, as a processed
  image or as an error, whatever the outcome of the other slots and of the clubs
  before: a failure neither drops a slot of the same club nor stops the loop.
  \<^item> For a club with a hero image and a logo image and no gallery image, when the hero
    transform fails and the logo transform succeeds, the result has exactly one
    processed image, the logo, and exactly one error, the hero's.
  \<^item> For every club, the processed images of its result are exactly the successes
    among the outcomes of \<open>attemptAll\<close> on its slots, in the order of the slots, its
    errors are exactly the failures among them, each with the label of its slot, and
    its URLs are those of the successes: a failure discards no success of another slot,
    before or after it, and no later slot is skipped.
  \<^item> The result of the \<open>i\<close>-th club is the result of \<open>processClub\<close> on that club in the
    world left by the clubs before it, whatever their outcomes.
\<close>

theorem slot_failures_are_isolated:
  "list_all2
     (\<lambda>c r. clubResult.name r = originalName c \<and> cleanName r = club.name c
            \<and> length (processed r) + length (errors r) = populatedSlots c)
     clubs (fst (processClubs X w clubs))
   \<and> (\<forall>c w0 h l e a w1 w2.
          heroImage c = Some h \<and> h \<noteq> [] \<and> logoImage c = Some l \<and> l \<noteq> [] \<and> galleryImages c = []
          \<and> processImageToCloudinary X w0 h (club.name c) Hero 1600 = (Inl e, w1)
          \<and> processImageToCloudinary X w1 l (club.name c) Logo 400 = (Inr a, w2)
        \<longrightarrow> processed (fst (processClub X w0 c)) = [a] \<and> type a = Logo
            \<and> errors (fst (processClub X w0 c)) = [(HeroImage, e)])
   \<and> (\<forall>c w0.
          processed (fst (processClub X w0 c))
            = successes (fst (attemptAll X (club.name c) w0 (slots c)))
          \<and> errors (fst (processClub X w0 c))
              = failures (fst (attemptAll X (club.name c) w0 (slots c)))
          \<and> cloudinaryUrls (fst (processClub X w0 c))
              = map cloudinaryUrl (successes (fst (attemptAll X (club.name c) w0 (slots c))))
          \<and> snd (processClub X w0 c) = snd (attemptAll X (club.name c) w0 (slots c)))
   \<and> (\<forall>i < length clubs.
          fst (processClubs X w clubs) ! i
            = fst (processClub X (snd (processClubs X w (take i clubs))) (clubs ! i)))"
proof (intro conjI allI impI)
  show "list_all2
     (\<lambda>c r. clubResult.name r = originalName c \<and> cleanName r = club.name c
            \<and> length (processed r) + length (errors r) = populatedSlots c)
     clubs (fst (processClubs X w clubs))"
    by (rule processClubs_each)
next
  fix c :: club and w0 :: 'a and h l e a w1 w2
  assume a: "heroImage c = Some h \<and> h \<noteq> [] \<and> logoImage c = Some l \<and> l \<noteq> [] \<and> galleryImages c = []
          \<and> processImageToCloudinary X w0 h (club.name c) Hero 1600 = (Inl e, w1)
          \<and> processImageToCloudinary X w1 l (club.name c) Logo 400 = (Inr a, w2)"
  have r: "processed (fst (processClub X w0 c)) = [a]
         \<and> errors (fst (processClub X w0 c)) = [(HeroImage, e)]
         \<and> cloudinaryUrls (fst (processClub X w0 c)) = [cloudinaryUrl a]
         \<and> snd (processClub X w0 c) = w2"
    by (rule hero_fails_logo_succeeds [of c h l X w0 e w1 a w2]) (simp_all add: a)
  show "processed (fst (processClub X w0 c)) = [a]"
    using r by simp
  show "errors (fst (processClub X w0 c)) = [(HeroImage, e)]"
    using r by simp
  show "type a = Logo"
    using a processImage_type [of X w1 l "club.name c" Logo 400 a w2] by simp
next
  fix c :: club and w0 :: 'a
  show "processed (fst (processClub X w0 c))
            = successes (fst (attemptAll X (club.name c) w0 (slots c)))"
    by (simp add: processClub_outcomes recordOutcomes_def)
  show "errors (fst (processClub X w0 c))
              = failures (fst (attemptAll X (club.name c) w0 (slots c)))"
    by (simp add: processClub_outcomes recordOutcomes_def)
  show "cloudinaryUrls (fst (processClub X w0 c))
              = map cloudinaryUrl (successes (fst (attemptAll X (club.name c) w0 (slots c))))"
    by (simp add: processClub_outcomes recordOutcomes_def)
  show "snd (processClub X w0 c) = snd (attemptAll X (club.name c) w0 (slots c))"
    by (simp add: processClub_outcomes)
next
  fix i
  assume "i < length clubs"
  then show "fst (processClubs X w clubs) ! i
            = fst (processClub X (snd (processClubs X w (take i clubs))) (clubs ! i))"
    by (rule processClubs_nth)
qed

theorem slot_failures_are_isolated_witness:
  "map type (processed (fst (processClub (storeExternals heroDown (\<lambda>bytes targetWidth. Inr bytes))
      Map.empty heroFailsClub))) = [Logo]
   \<and> errors (fst (processClub (storeExternals heroDown (\<lambda>bytes targetWidth. Inr bytes))
      Map.empty heroFailsClub))
      = [(HeroImage, DownloadFailed 404)]
   \<and> map (\<lambda>r. map type (processed r))
       (fst (processClubs (storeExternals heroDown (\<lambda>bytes targetWidth. Inr bytes)) Map.empty
          [heroFailsClub, galleryFailsClub]))
      = [[Logo], [Logo]]
   \<and> map errors
       (fst (processClubs (storeExternals heroDown (\<lambda>bytes targetWidth. Inr bytes)) Map.empty
          [heroFailsClub, galleryFailsClub]))
      = [[(HeroImage, DownloadFailed 404)], [(GalleryImage 1, DownloadFailed 404)]]
   \<and> map cloudinaryUrls
       (fst (processClubs (storeExternals heroDown (\<lambda>bytes targetWidth. Inr bytes)) Map.empty
          [heroFailsClub, galleryFailsClub]))
      = [[str ''https://cdn.example/joinphilly/a-logo''],
         [str ''https://cdn.example/joinphilly/b-logo'']]"
proof -
  let ?X = "storeExternals heroDown (\<lambda>bytes targetWidth. Inr bytes)"
  let ?c = heroFailsClub
  let ?clubs = "[heroFailsClub, galleryFailsClub]"
  note T = slot_failures_are_isolated [of ?clubs ?X Map.empty]
  obtain a w2 where
    l: "processImageToCloudinary ?X Map.empty (str ''https://a/logo'') (str ''a'') Logo 400 = (Inr a, w2)"
    by (simp add: processImageToCloudinary_def storeExternals_def storeUpload_def heroDown_def
        echo_def str_def)
  have h: "processImageToCloudinary ?X Map.empty (str ''https://a/hero'') (str ''a'') Hero 1600
             = (Inl (DownloadFailed 404), Map.empty)"
    by (simp add: processImageToCloudinary_def storeExternals_def heroDown_def)
  have c: "heroImage ?c = Some (str ''https://a/hero'')" "logoImage ?c = Some (str ''https://a/logo'')"
    "galleryImages ?c = []" "club.name ?c = str ''a''"
    by (simp_all add: heroFailsClub_def)
  have 1: "processed (fst (processClub ?X Map.empty ?c)) = [a] \<and> type a = Logo
            \<and> errors (fst (processClub ?X Map.empty ?c)) = [(HeroImage, DownloadFailed 404)]"
    using T [THEN conjunct2, THEN conjunct1, rule_format,
        of ?c "str ''https://a/hero''" "str ''https://a/logo''" Map.empty "DownloadFailed 404" Map.empty a w2]
      h l c
    by (simp add: str_def)
  have pw: "\<And>w0 u. u \<noteq> str ''https://a/hero'' \<Longrightarrow>
      processImageToCloudinary ?X w0 u (str ''a'') Logo 400
        = (Inr \<lparr>originalUrl = u, cloudinaryUrl = str ''https://cdn.example/joinphilly/a-logo'',
                publicId = str ''joinphilly/a-logo'',
                filename = str ''a-logo.webp'', altText = generateAltText (str ''a'') Logo,
                width = 0, height = 0, type = Logo, format = str ''webp''\<rparr>,
           w0(str ''joinphilly/a-logo'' \<mapsto> u))"
    by (simp add: processImageToCloudinary_def storeExternals_def storeUpload_def heroDown_def
        echo_def storageKey_def typeName_def str_def)
  have pb: "\<And>w0 u. u \<noteq> str ''https://a/hero'' \<Longrightarrow>
      processImageToCloudinary ?X w0 u (str ''b'') Logo 400
        = (Inr \<lparr>originalUrl = u, cloudinaryUrl = str ''https://cdn.example/joinphilly/b-logo'',
                publicId = str ''joinphilly/b-logo'',
                filename = str ''b-logo.webp'', altText = generateAltText (str ''b'') Logo,
                width = 0, height = 0, type = Logo, format = str ''webp''\<rparr>,
           w0(str ''joinphilly/b-logo'' \<mapsto> u))"
    by (simp add: processImageToCloudinary_def storeExternals_def storeUpload_def heroDown_def
        echo_def storageKey_def typeName_def str_def)
  have pf: "\<And>w0 n t wd. processImageToCloudinary ?X w0 (str ''https://a/hero'') n t wd
             = (Inl (DownloadFailed 404), w0)"
    by (simp add: processImageToCloudinary_def storeExternals_def heroDown_def)
  have d: "str ''https://a/logo'' \<noteq> str ''https://a/hero''"
    "str ''https://b/logo'' \<noteq> str ''https://a/hero''"
    by (simp_all add: str_def)
  have sa: "slots heroFailsClub
      = [(HeroImage, str ''https://a/hero'', Hero, 1600), (LogoImage, str ''https://a/logo'', Logo, 400)]"
    by (simp add: slots_def heroFailsClub_def str_def)
  have sb: "slots galleryFailsClub
      = [(LogoImage, str ''https://b/logo'', Logo, 400),
         (GalleryImage 1, str ''https://a/hero'', Gallery 1, 1200)]"
    by (simp add: slots_def galleryFailsClub_def str_def)
  have n: "club.name heroFailsClub = str ''a''" "club.name galleryFailsClub = str ''b''"
    by (simp_all add: heroFailsClub_def galleryFailsClub_def)
  note P = T [THEN conjunct2, THEN conjunct2, THEN conjunct1, rule_format]
  have ra: "\<And>w0. map type (processed (fst (processClub ?X w0 heroFailsClub))) = [Logo]
      \<and> errors (fst (processClub ?X w0 heroFailsClub)) = [(HeroImage, DownloadFailed 404)]
      \<and> cloudinaryUrls (fst (processClub ?X w0 heroFailsClub))
          = [str ''https://cdn.example/joinphilly/a-logo'']"
    using P [of _ heroFailsClub] by (simp add: sa n pf pw [OF d(1)] successes_def failures_def)
  have rb: "\<And>w0. map type (processed (fst (processClub ?X w0 galleryFailsClub))) = [Logo]
      \<and> errors (fst (processClub ?X w0 galleryFailsClub)) = [(GalleryImage 1, DownloadFailed 404)]
      \<and> cloudinaryUrls (fst (processClub ?X w0 galleryFailsClub))
          = [str ''https://cdn.example/joinphilly/b-logo'']"
    using P [of _ galleryFailsClub] by (simp add: sb n pf pb [OF d(2)] successes_def failures_def)
  define results where "results = fst (processClubs ?X Map.empty ?clubs)"
  have len: "length results = 2"
    unfolding results_def by (simp add: case_prod_beta)
  note N = T [THEN conjunct2, THEN conjunct2, THEN conjunct2, rule_format]
  have r0: "results ! 0 = fst (processClub ?X (snd (processClubs ?X Map.empty [])) heroFailsClub)"
    unfolding results_def using N [of 0] by simp
  have r1: "results ! 1
              = fst (processClub ?X (snd (processClubs ?X Map.empty [heroFailsClub])) galleryFailsClub)"
    unfolding results_def using N [of 1] by simp
  have "results = [results ! 0, results ! 1]"
  proof (cases results)
    case Nil
    then show ?thesis using len by simp
  next
    case (Cons x xs)
    then show ?thesis using len by (cases xs) simp_all
  qed
  then have rs: "results
      = [fst (processClub ?X (snd (processClubs ?X Map.empty [])) heroFailsClub),
         fst (processClub ?X (snd (processClubs ?X Map.empty [heroFailsClub])) galleryFailsClub)]"
    using r0 r1 by simp
  have 2: "map (\<lambda>r. map type (processed r)) results = [[Logo], [Logo]]
     \<and> map errors results
        = [[(HeroImage, DownloadFailed 404)], [(GalleryImage 1, DownloadFailed 404)]]
     \<and> map cloudinaryUrls results
      = [[str ''https://cdn.example/joinphilly/a-logo''],
         [str ''https://cdn.example/joinphilly/b-logo'']]"
    unfolding rs using ra rb by simp
  show ?thesis
    using 1 2 unfolding results_def by simp
qed

section \<open>The search of \<open>updateAirtableRecord\<close> follows the fallback chain\<close>

lemma doSearch_trace:
  assumes "doSearch X formula lk = (e, lk')"
  shows "(e = Some URIError \<and> lk' = lk)
         \<or> (\<exists>reply. sent lk' = sent lk @ [(SEARCH formula, reply)]
              \<and> (isMatch reply \<longrightarrow>
                    e = None \<and> \<not> nothingFound lk'
                    \<and> (case searchResponse lk' of None \<Rightarrow> False | Some r \<Rightarrow> ok r)))"
proof (cases "wellFormed formula")
  case False
  then show ?thesis
    using assms by (simp add: doSearch_def)
next
  case True
  obtain res w' where f: "fetch X (world lk) (SEARCH formula) = (res, w')"
    by (cases "fetch X (world lk) (SEARCH formula)")
  show ?thesis
  proof (cases res)
    case (Inl x)
    then have "sent lk' = sent lk @ [(SEARCH formula, Inl x)]"
      using assms True f by (auto simp: doSearch_def)
    moreover have "\<not> isMatch (Inl x)"
      by (simp add: isMatch_def)
    ultimately show ?thesis by blast
  next
    case (Inr resp)
    then have s: "sent lk' = sent lk @ [(SEARCH formula, Inr resp)]"
      using assms True f
      by (auto simp: doSearch_def Let_def split: if_splits sum.splits option.splits)
    have "isMatch (Inr resp) \<longrightarrow>
                    e = None \<and> \<not> nothingFound lk'
                    \<and> (case searchResponse lk' of None \<Rightarrow> False | Some r \<Rightarrow> ok r)"
      using assms True f Inr
      by (auto simp: doSearch_def Let_def isMatch_def nothingFound_def
          split: if_splits sum.splits option.splits)
    with s show ?thesis by blast
  qed
qed

lemma nameLoop_trace:
  "nameLoop X names lk = (e, lk')
     \<Longrightarrow> \<exists>new. sent lk' = sent lk @ new \<and> wellChained (map nameFilter names) new"
proof (induction names arbitrary: lk)
  case Nil
  then show ?case by simp
next
  case (Cons nameToTry rest)
  obtain e1 lk1 where d: "doSearch X (nameFilter nameToTry) lk = (e1, lk1)"
    by (cases "doSearch X (nameFilter nameToTry) lk")
  from doSearch_trace [OF d] show ?case
  proof
    assume "e1 = Some URIError \<and> lk1 = lk"
    then have "lk' = lk"
      using Cons.prems d by simp
    then show ?thesis by simp
  next
    assume "\<exists>reply. sent lk1 = sent lk @ [(SEARCH (nameFilter nameToTry), reply)]
              \<and> (isMatch reply \<longrightarrow>
                    e1 = None \<and> \<not> nothingFound lk1
                    \<and> (case searchResponse lk1 of None \<Rightarrow> False | Some r \<Rightarrow> ok r))"
    then obtain reply where s: "sent lk1 = sent lk @ [(SEARCH (nameFilter nameToTry), reply)]"
      and m: "isMatch reply \<Longrightarrow>
                    e1 = None \<and> \<not> nothingFound lk1
                    \<and> (case searchResponse lk1 of None \<Rightarrow> False | Some r \<Rightarrow> ok r)"
      by blast
    show ?thesis
    proof (cases "e1 = None \<and> \<not> ((case searchResponse lk1 of None \<Rightarrow> False | Some r \<Rightarrow> ok r)
                    \<and> \<not> nothingFound lk1)")
      case True
      then have "nameLoop X rest lk1 = (e, lk')"
        using Cons.prems d by auto
      then obtain new where n: "sent lk' = sent lk1 @ new" "wellChained (map nameFilter rest) new"
        using Cons.IH by blast
      have "\<not> isMatch reply"
        using True m by blast
      then have "wellChained (map nameFilter (nameToTry # rest))
                   ((SEARCH (nameFilter nameToTry), reply) # new)"
        using n by simp
      then show ?thesis
        using n s by simp
    next
      case False
      then have "lk' = lk1"
        using Cons.prems d by (cases e1) (auto split: if_splits)
      then have "sent lk' = sent lk @ [(SEARCH (nameFilter nameToTry), reply)]"
        using s by simp
      moreover have "wellChained (map nameFilter (nameToTry # rest))
                       [(SEARCH (nameFilter nameToTry), reply)]"
        by simp
      ultimately show ?thesis by blast
    qed
  qed
qed

lemma findRecord_trace:
  "findRecord v X w r = (res, lk) \<Longrightarrow> wellChained (fallbackChain r) (sent lk)"
proof -
  assume f: "findRecord v X w r = (res, lk)"
  let ?lk0 = "\<lparr>searchResponse = None, searchData = None, sent = [], world = w\<rparr>"
  let ?names = "if nonBlank (clubResult.name r)
       then map nameFilter (filter nonBlank [clubResult.name r, cleanName r]) else []"
  show ?thesis
  proof (cases "nonBlank (clubResult.submissionId r)")
    case True
    obtain e1 lk1 where d: "doSearch X (submissionIdFilter (clubResult.submissionId r)) ?lk0 = (e1, lk1)"
      by (cases "doSearch X (submissionIdFilter (clubResult.submissionId r)) ?lk0")
    have c: "fallbackChain r = submissionIdFilter (clubResult.submissionId r) # ?names"
      using True by (simp add: fallbackChain_def)
    from doSearch_trace [OF d] show ?thesis
    proof
      assume "e1 = Some URIError \<and> lk1 = ?lk0"
      then have "lk = ?lk0"
        using f d True by (simp add: findRecord_def)
      then show ?thesis by simp
    next
      assume "\<exists>reply. sent lk1 = sent ?lk0 @ [(SEARCH (submissionIdFilter (clubResult.submissionId r)), reply)]
              \<and> (isMatch reply \<longrightarrow>
                    e1 = None \<and> \<not> nothingFound lk1
                    \<and> (case searchResponse lk1 of None \<Rightarrow> False | Some r \<Rightarrow> ok r))"
      then obtain reply where
        s: "sent lk1 = [(SEARCH (submissionIdFilter (clubResult.submissionId r)), reply)]"
        and m: "isMatch reply \<Longrightarrow> e1 = None \<and> \<not> nothingFound lk1"
        by auto
      show ?thesis
      proof (cases "e1 = None \<and> nothingFound lk1 \<and> nonBlank (clubResult.name r)")
        case True
        obtain e2 lk2 where
          n: "nameLoop X (filter nonBlank [clubResult.name r, cleanName r]) lk1 = (e2, lk2)"
          by (cases "nameLoop X (filter nonBlank [clubResult.name r, cleanName r]) lk1")
        then obtain new where new: "sent lk2 = sent lk1 @ new"
          "wellChained (map nameFilter (filter nonBlank [clubResult.name r, cleanName r])) new"
          using nameLoop_trace by blast
        have "lk = lk2"
          using f d n True \<open>nonBlank (clubResult.submissionId r)\<close>
          by (auto simp: findRecord_def Let_def split: option.splits list.splits if_splits)
        moreover have "\<not> isMatch reply"
          using True m by blast
        ultimately show ?thesis
          using new s c True by simp
      next
        case False
        then have "lk = lk1"
          using f d \<open>nonBlank (clubResult.submissionId r)\<close>
          by (cases e1) (auto simp: findRecord_def Let_def split: option.splits list.splits if_splits)
        then show ?thesis
          using s c by simp
      qed
    qed
  next
    case False
    note sid = False
    then have c: "fallbackChain r = ?names"
      by (simp add: fallbackChain_def)
    show ?thesis
    proof (cases "nonBlank (clubResult.name r)")
      case True
      obtain e2 lk2 where
        n: "nameLoop X (filter nonBlank [clubResult.name r, cleanName r]) ?lk0 = (e2, lk2)"
        by (cases "nameLoop X (filter nonBlank [clubResult.name r, cleanName r]) ?lk0")
      then obtain new where new: "sent lk2 = sent ?lk0 @ new"
        "wellChained (map nameFilter (filter nonBlank [clubResult.name r, cleanName r])) new"
        using nameLoop_trace by blast
      have "lk = lk2"
        using f n True sid
        by (auto simp: findRecord_def Let_def nothingFound_def split: option.splits list.splits if_splits)
      then show ?thesis
        using new c True by simp
    next
      case False
      then have "lk = ?lk0"
        using f sid
        by (auto simp: findRecord_def Let_def nothingFound_def split: option.splits list.splits if_splits)
      then show ?thesis
        by simp
    qed
  qed
qed

lemma searchesOf_Cons_search:
  "searchesOf ((SEARCH formula, reply) # exchanges) = formula # searchesOf exchanges"
  by (simp add: searchesOf_def)

lemma wellChained_searches:
  "wellChained formulas exchanges \<Longrightarrow> prefix (searchesOf exchanges) formulas"
proof (induction formulas arbitrary: exchanges)
  case Nil
  then show ?case
    by (cases exchanges) (simp_all add: searchesOf_def)
next
  case (Cons formula formulas)
  show ?case
  proof (cases exchanges)
    case Nil
    then show ?thesis by (simp add: searchesOf_def)
  next
    case (Cons x rest)
    then have x: "x = (SEARCH formula, snd x)"
      using Cons.prems by (cases x) simp
    have "prefix (searchesOf rest) formulas"
    proof (cases "isMatch (snd x)")
      case True
      then have "rest = []"
        using Cons.prems Cons by simp
      then show ?thesis by (simp add: searchesOf_def)
    next
      case False
      then have "wellChained formulas rest"
        using Cons.prems Cons by simp
      then show ?thesis by (rule Cons.IH)
    qed
    then show ?thesis
      using Cons x searchesOf_Cons_search [of formula "snd x" rest] by simp
  qed
qed

lemma wellChained_stop:
  "wellChained formulas (pre @ x # post) \<Longrightarrow> isMatch (snd x) \<Longrightarrow> post = []"
proof (induction pre arbitrary: formulas)
  case Nil
  then show ?case
    by (cases formulas) simp_all
next
  case (Cons y pre)
  then show ?case
    by (cases formulas) (auto split: if_splits)
qed

lemma updateAirtableRecord_trace:
  assumes "updateAirtableRecord v X w r = (res, exchanges, w')"
  shows "\<exists>searches rest. exchanges = searches @ rest \<and> wellChained (fallbackChain r) searches
           \<and> (rest = [] \<or> (\<exists>rid updateFields reply. rest = [(PATCH rid updateFields, reply)]))"
proof -
  obtain found lk where f: "findRecord v X w r = (found, lk)"
    by (cases "findRecord v X w r")
  have c: "wellChained (fallbackChain r) (sent lk)"
    using f by (rule findRecord_trace)
  show ?thesis
  proof (cases found)
    case (Inl e)
    then have "exchanges = sent lk @ []"
      using assms f by (simp add: updateAirtableRecord_def)
    with c show ?thesis by blast
  next
    case (Inr rid)
    let ?req = "PATCH rid (updatePayload v (now X (world lk)) (processed r))"
    obtain reply w1 where p: "fetch X (world lk) ?req = (reply, w1)"
      by (cases "fetch X (world lk) ?req")
    have "exchanges = sent lk @ [(?req, reply)]"
      using assms f Inr p
      by (auto simp: updateAirtableRecord_def Let_def split: sum.splits option.splits if_splits)
    with c show ?thesis by blast
  qed
qed

lemma filters_differ: "nameFilter nameToTry \<noteq> submissionIdFilter sid"
  by (simp add: nameFilter_def submissionIdFilter_def str_def)

lemma blank_id_chain:
  "\<not> nonBlank (clubResult.submissionId r)
     \<Longrightarrow> prefix (fallbackChain r) [nameFilter (clubResult.name r), nameFilter (cleanName r)]"
  by (simp add: fallbackChain_def)

lemma searchesOf_append:
  "searchesOf (xs @ ys) = searchesOf xs @ searchesOf ys"
  by (simp add: searchesOf_def)

lemma searchesOf_patch: "searchesOf [(PATCH rid updateFields, reply)] = []"
  by (simp add: searchesOf_def)

lemma searchesOf_Nil: "searchesOf [] = []"
  by (simp add: searchesOf_def)

lemma match_or_miss: "isMatch reply \<Longrightarrow> \<not> isMiss reply"
  by (auto simp: isMatch_def isMiss_def split: sum.splits option.splits)

text \<open>What one search does, in terms of the answer of \<open>fetch\<close>.\<close>

lemma doSearch_fetch:
  assumes "wellFormed formula" and "fetch X (world lk) (SEARCH formula) = (reply, w1)"
    and "doSearch X formula lk = (e, lk')"
  shows "sent lk' = sent lk @ [(SEARCH formula, reply)]" and "world lk' = w1"
    and "isMiss reply \<Longrightarrow> nothingFound lk \<Longrightarrow> e = None \<and> nothingFound lk'"
    and "isMatch reply \<Longrightarrow>
           e = None \<and> (\<exists>resp. searchResponse lk' = Some resp \<and> ok resp)
           \<and> (\<exists>others. searchData lk' = Some (the (matchedId reply) # others))"
    and "\<not> isMiss reply \<Longrightarrow> \<not> isMatch reply \<Longrightarrow> e \<noteq> None"
proof -
  show "sent lk' = sent lk @ [(SEARCH formula, reply)]"
    using assms
    by (cases reply) (auto simp: doSearch_def Let_def split: if_splits sum.splits option.splits)
  show "world lk' = w1"
    using assms
    by (cases reply) (auto simp: doSearch_def Let_def split: if_splits sum.splits option.splits)
  show "isMiss reply \<Longrightarrow> nothingFound lk \<Longrightarrow> e = None \<and> nothingFound lk'"
    using assms
    by (cases reply)
      (auto simp: doSearch_def Let_def isMiss_def nothingFound_def
        split: if_splits sum.splits option.splits)
  show "isMatch reply \<Longrightarrow>
           e = None \<and> (\<exists>resp. searchResponse lk' = Some resp \<and> ok resp)
           \<and> (\<exists>others. searchData lk' = Some (the (matchedId reply) # others))"
    using assms
    by (cases reply)
      (auto simp: doSearch_def Let_def isMatch_def matchedId_def neq_Nil_conv
        split: if_splits sum.splits option.splits)
  show "\<not> isMiss reply \<Longrightarrow> \<not> isMatch reply \<Longrightarrow> e \<noteq> None"
    using assms
    by (cases reply)
      (auto simp: doSearch_def Let_def isMatch_def isMiss_def
        split: if_splits sum.splits option.splits)
qed

lemma foundBy_found: "foundBy lk reply \<Longrightarrow> \<not> nothingFound lk"
  by (auto simp: foundBy_def nothingFound_def)

lemma foundBy_check: "foundBy lk reply \<Longrightarrow> checkFound v lk = Inr (the (matchedId reply))"
  by (auto simp: foundBy_def checkFound_def)

lemma nameLoop_chain:
  assumes "nothingFound lk" and "nameLoop X names lk = (e, lk')"
  shows "sent lk' = sent lk @ fst (chainRun X (world lk) (map nameFilter names))
       \<and> world lk' = snd (chainRun X (world lk) (map nameFilter names))
       \<and> (\<forall>x \<in> set (fst (chainRun X (world lk) (map nameFilter names))).
             isMatch (snd x) \<longrightarrow> e = None \<and> foundBy lk' (snd x))"
  using assms
proof (induction names arbitrary: lk)
  case Nil
  then show ?case by simp
next
  case (Cons nameToTry rest)
  let ?f = "nameFilter nameToTry"
  show ?case
  proof (cases "wellFormed ?f")
    case False
    then have "doSearch X ?f lk = (Some URIError, lk)"
      by (simp add: doSearch_def)
    then have "lk' = lk"
      using Cons.prems by simp
    then show ?thesis
      using False by simp
  next
    case True
    note wf = True
    obtain reply w1 where f: "fetch X (world lk) (SEARCH ?f) = (reply, w1)"
      by (cases "fetch X (world lk) (SEARCH ?f)")
    obtain e1 lk1 where d: "doSearch X ?f lk = (e1, lk1)"
      by (cases "doSearch X ?f lk")
    note D = doSearch_fetch [OF wf f d]
    show ?thesis
    proof (cases "isMiss reply")
      case True
      then have e1: "e1 = None" and nf: "nothingFound lk1"
        using D(3) Cons.prems(1) by auto
      have "nameLoop X rest lk1 = (e, lk')"
        using Cons.prems(2) d e1 nf by simp
      note IH = Cons.IH [OF nf this]
      have c: "chainRun X (world lk) (map nameFilter (nameToTry # rest))
                 = ((SEARCH ?f, reply) # fst (chainRun X w1 (map nameFilter rest)),
                    snd (chainRun X w1 (map nameFilter rest)))"
        using wf f True by (simp add: case_prod_beta)
      have "\<not> isMatch reply"
        using True match_or_miss by blast
      then show ?thesis
        unfolding c using IH D(1,2) by simp
    next
      case False
      have c: "chainRun X (world lk) (map nameFilter (nameToTry # rest)) = ([(SEARCH ?f, reply)], w1)"
        using wf f False by simp
      have stop: "lk' = lk1 \<and> e = e1"
      proof (cases e1)
        case None
        then have "isMatch reply"
          using D(5) False by blast
        then have "foundBy lk1 reply"
          using D(4) by (simp add: foundBy_def)
        then show ?thesis
          using Cons.prems(2) d None by (auto simp: foundBy_def nothingFound_def)
      next
        case (Some err)
        then show ?thesis
          using Cons.prems(2) d by simp
      qed
      have "isMatch reply \<longrightarrow> e = None \<and> foundBy lk' reply"
        using D(4) stop by (simp add: foundBy_def)
      then show ?thesis
        unfolding c using D(1,2) stop by simp
    qed
  qed
qed

lemma findRecord_chain:
  assumes "findRecord v X w r = (found, lk)"
  shows "sent lk = fst (chainRun X w (fallbackChain r))
       \<and> world lk = snd (chainRun X w (fallbackChain r))
       \<and> (\<forall>x \<in> set (sent lk). isMatch (snd x) \<longrightarrow> found = Inr (the (matchedId (snd x))))"
proof -
  let ?lk0 = "\<lparr>searchResponse = None, searchData = None, sent = [], world = w\<rparr>"
  let ?names = "if nonBlank (clubResult.name r)
       then filter nonBlank [clubResult.name r, cleanName r] else []"
  let ?idf = "submissionIdFilter (clubResult.submissionId r)"
  have nl: "\<And>lk1. (if nonBlank (clubResult.name r)
                    then nameLoop X (filter nonBlank [clubResult.name r, cleanName r]) lk1
                    else (None, lk1)) = nameLoop X ?names lk1"
    by simp
  have names: "(if nonBlank (clubResult.name r)
       then map nameFilter (filter nonBlank [clubResult.name r, cleanName r]) else [])
       = map nameFilter ?names"
    by simp
  have tail: "sent lk = sent lk1 @ fst (chainRun X (world lk1) (map nameFilter ?names))
       \<and> world lk = snd (chainRun X (world lk1) (map nameFilter ?names))
       \<and> (\<forall>x \<in> set (fst (chainRun X (world lk1) (map nameFilter ?names))).
             isMatch (snd x) \<longrightarrow> found = Inr (the (matchedId (snd x))))"
    if nf: "nothingFound lk1"
      and rest: "(case nameLoop X ?names lk1 of
                    (Some e, lk2) \<Rightarrow> (Inl e, lk2)
                  | (None, lk2) \<Rightarrow> (checkFound v lk2, lk2)) = (found, lk)"
    for lk1
  proof -
    obtain e2 lk2 where n: "nameLoop X ?names lk1 = (e2, lk2)"
      by (cases "nameLoop X ?names lk1")
    note N = nameLoop_chain [OF nf n]
    have lk: "lk = lk2"
      using rest n by (cases e2) auto
    have "e2 = None \<Longrightarrow> found = checkFound v lk2"
      using rest n by auto
    then show ?thesis
      using N lk foundBy_check [of lk2 _ v] by auto
  qed
  show ?thesis
  proof (cases "nonBlank (clubResult.submissionId r)")
    case False
    then have c: "fallbackChain r = map nameFilter ?names"
      by (simp add: fallbackChain_def)
    have "(case nameLoop X ?names ?lk0 of
                    (Some e, lk2) \<Rightarrow> (Inl e, lk2)
                  | (None, lk2) \<Rightarrow> (checkFound v lk2, lk2)) = (found, lk)"
      using assms False unfolding findRecord_def Let_def nl
      by (simp add: nothingFound_def)
    from tail [of ?lk0, OF _ this] show ?thesis
      unfolding c by (simp add: nothingFound_def)
  next
    case True
    note sid = True
    then have c: "fallbackChain r = ?idf # map nameFilter ?names"
      by (simp add: fallbackChain_def)
    obtain e1 lk1 where d: "doSearch X ?idf ?lk0 = (e1, lk1)"
      by (cases "doSearch X ?idf ?lk0")
    have fr: "(case (e1, lk1) of
          (Some e, lk1) \<Rightarrow> (Inl e, lk1)
        | (None, lk1) \<Rightarrow>
            (case (if nothingFound lk1 then nameLoop X ?names lk1 else (None, lk1)) of
                  (Some e, lk2) \<Rightarrow> (Inl e, lk2)
                | (None, lk2) \<Rightarrow> (checkFound v lk2, lk2))) = (found, lk)"
      using assms sid d unfolding findRecord_def Let_def nl by simp
    show ?thesis
    proof (cases "wellFormed ?idf")
      case False
      then have "(e1, lk1) = (Some URIError, ?lk0)"
        using d by (simp add: doSearch_def)
      then have "lk = ?lk0"
        using fr by auto
      then show ?thesis
        unfolding c using False by simp
    next
      case True
      note wf = True
      obtain reply w1 where f: "fetch X w (SEARCH ?idf) = (reply, w1)"
        by (cases "fetch X w (SEARCH ?idf)")
      then have f': "fetch X (world ?lk0) (SEARCH ?idf) = (reply, w1)"
        by simp
      note D = doSearch_fetch [OF wf f' d]
      have s1: "sent lk1 = [(SEARCH ?idf, reply)]"
        using D(1) by simp
      show ?thesis
      proof (cases "isMiss reply")
        case True
        then have e1: "e1 = None" and nf: "nothingFound lk1"
          using D(3) by (auto simp: nothingFound_def)
        have "(case nameLoop X ?names lk1 of
                    (Some e, lk2) \<Rightarrow> (Inl e, lk2)
                  | (None, lk2) \<Rightarrow> (checkFound v lk2, lk2)) = (found, lk)"
          using fr e1 nf by simp
        note T = tail [OF nf this]
        have cr: "chainRun X w (fallbackChain r)
                 = ((SEARCH ?idf, reply) # fst (chainRun X w1 (map nameFilter ?names)),
                    snd (chainRun X w1 (map nameFilter ?names)))"
          unfolding c using wf f True by (simp add: case_prod_beta)
        have "\<not> isMatch reply"
          using True match_or_miss by blast
        then show ?thesis
          unfolding cr using T D(2) s1 by auto
      next
        case False
        have cr: "chainRun X w (fallbackChain r) = ([(SEARCH ?idf, reply)], w1)"
          unfolding c using wf f False by simp
        have stop: "lk = lk1 \<and> (isMatch reply \<longrightarrow> found = Inr (the (matchedId reply)))"
        proof (cases e1)
          case None
          then have "isMatch reply"
            using D(5) False by blast
          then have fb: "foundBy lk1 reply"
            using D(4) by (simp add: foundBy_def)
          then show ?thesis
            using fr None foundBy_found [OF fb] foundBy_check [OF fb, of v] by auto
        next
          case (Some err)
          then have "\<not> isMatch reply"
            using D(4) by auto
          then show ?thesis
            using fr Some by auto
        qed
        then show ?thesis
          unfolding cr using D(2) s1 by simp
      qed
    qed
  qed
qed

lemma chainRun_first:
  "formulas \<noteq> [] \<Longrightarrow> wellFormed (hd formulas)
     \<Longrightarrow> fst (chainRun X w formulas) \<noteq> []
         \<and> fst (hd (fst (chainRun X w formulas))) = SEARCH (hd formulas)"
  by (cases formulas) (auto simp: case_prod_beta)

lemma chainRun_next:
  "k < length (fst (chainRun X w formulas)) \<Longrightarrow> isMiss (snd (fst (chainRun X w formulas) ! k))
     \<Longrightarrow> Suc k < length formulas \<Longrightarrow> wellFormed (formulas ! Suc k)
     \<Longrightarrow> Suc k < length (fst (chainRun X w formulas))
         \<and> fst (fst (chainRun X w formulas) ! Suc k) = SEARCH (formulas ! Suc k)"
proof (induction formulas arbitrary: w k)
  case Nil
  then show ?case by simp
next
  case (Cons formula formulas)
  have wf: "wellFormed formula"
    using Cons.prems(1) by (auto split: if_splits)
  obtain reply w1 where f: "fetch X w (SEARCH formula) = (reply, w1)"
    by (cases "fetch X w (SEARCH formula)")
  show ?case
  proof (cases "isMiss reply")
    case False
    then have c: "fst (chainRun X w (formula # formulas)) = [(SEARCH formula, reply)]"
      using wf f by simp
    then show ?thesis
      using Cons.prems(1,2) False by simp
  next
    case True
    then have c: "fst (chainRun X w (formula # formulas))
                    = (SEARCH formula, reply) # fst (chainRun X w1 formulas)"
      using wf f by (simp add: case_prod_beta)
    show ?thesis
    proof (cases k)
      case 0
      have "formulas \<noteq> []" "wellFormed (hd formulas)"
        using Cons.prems(3,4) 0 by (cases formulas; simp)+
      from chainRun_first [OF this, of X w1] show ?thesis
        unfolding c using 0 by (cases "fst (chainRun X w1 formulas)"; cases formulas) auto
    next
      case (Suc j)
      have "Suc j < length (fst (chainRun X w1 formulas))
         \<and> fst (fst (chainRun X w1 formulas) ! Suc j) = SEARCH (formulas ! Suc j)"
        using Cons.prems Suc unfolding c by (intro Cons.IH) simp_all
      then show ?thesis
        unfolding c using Suc by simp
    qed
  qed
qed

lemma updateAirtableRecord_exchanges:
  assumes "updateAirtableRecord v X w r = (res, exchanges, w')"
    and "findRecord v X w r = (found, lk)"
  shows "case found of
           Inl e \<Rightarrow> exchanges = sent lk
         | Inr rid \<Rightarrow>
             (\<exists>answer. exchanges
                = sent lk @ [(PATCH rid (updatePayload v (now X (world lk)) (processed r)), answer)])"
proof (cases found)
  case (Inl e)
  then show ?thesis
    using assms by (simp add: updateAirtableRecord_def)
next
  case (Inr rid)
  let ?req = "PATCH rid (updatePayload v (now X (world lk)) (processed r))"
  obtain reply w1 where p: "fetch X (world lk) ?req = (reply, w1)"
    by (cases "fetch X (world lk) ?req")
  have "exchanges = sent lk @ [(?req, reply)]"
    using assms Inr p
    by (auto simp: updateAirtableRecord_def Let_def split: sum.splits option.splits if_splits)
  then show ?thesis
    using Inr by simp
qed

lemma wellChained_all_searches:
  "wellChained formulas exchanges \<Longrightarrow> \<forall>x \<in> set exchanges. \<exists>formula. fst x = SEARCH formula"
proof (induction formulas arbitrary: exchanges)
  case Nil
  then show ?case by (cases exchanges) simp_all
next
  case (Cons formula formulas)
  then show ?case
    by (cases exchanges) (auto split: if_splits)
qed

lemma updateAirtableRecord_tail:
  assumes u: "updateAirtableRecord v X w r = (res, exchanges, w')"
    and f: "findRecord v X w r = (found, lk)"
  shows "\<exists>tail. exchanges = fst (chainRun X w (fallbackChain r)) @ tail
           \<and> (tail = [] \<or> (\<exists>rid updateFields answer. tail = [(PATCH rid updateFields, answer)]))
           \<and> (\<forall>rid. found = Inr rid
                 \<longrightarrow> (\<exists>updateFields answer. tail = [(PATCH rid updateFields, answer)]))"
proof -
  note U = updateAirtableRecord_exchanges [OF u f]
  let ?run = "fst (chainRun X w (fallbackChain r))"
  have sl: "sent lk = ?run"
    using findRecord_chain [OF f] by simp
  show ?thesis
  proof (cases found)
    case (Inl err)
    then have "exchanges = ?run @ []"
      using U sl by simp
    then show ?thesis
      using Inl by (intro exI [of _ "[]"]) simp
  next
    case (Inr rid)
    then obtain answer where
      "exchanges = ?run @ [(PATCH rid (updatePayload v (now X (world lk)) (processed r)), answer)]"
      using U sl by auto
    then show ?thesis
      using Inr
      by (intro exI [of _ "[(PATCH rid (updatePayload v (now X (world lk)) (processed r)), answer)]"])
        simp
  qed
qed

lemma search_in_run:
  assumes t: "exchanges = run @ tail"
    and tl: "tail = [] \<or> (\<exists>rid updateFields answer. tail = [(PATCH rid updateFields, answer)])"
    and k: "k < length exchanges" "fst (exchanges ! k) = SEARCH formula"
  shows "k < length run"
proof (rule ccontr)
  assume "\<not> k < length run"
  then have "exchanges ! k = tail ! (k - length run)" "k - length run < length tail"
    using k(1) unfolding t by (simp_all add: nth_append)
  then show False
    using tl k(2) by auto
qed

lemma match_is_last:
  assumes t: "exchanges = run @ tail"
    and tl: "tail = [] \<or> (\<exists>rid updateFields answer. tail = [(PATCH rid updateFields, answer)])"
    and wc: "wellChained formulas run"
    and a: "exchanges = pre @ (SEARCH formula, reply) # post" "isMatch reply"
  shows "run = pre @ [(SEARCH formula, reply)] \<and> post = tail"
proof -
  have "\<exists>post'. run = pre @ (SEARCH formula, reply) # post' \<and> post = post' @ tail"
  proof (cases "tail = []")
    case True
    then show ?thesis
      using a t by simp
  next
    case False
    then obtain rid updateFields answer where tp: "tail = [(PATCH rid updateFields, answer)]"
      using tl by blast
    show ?thesis
    proof (cases post rule: rev_cases)
      case Nil
      then have "run @ [(PATCH rid updateFields, answer)] = pre @ [(SEARCH formula, reply)]"
        using a t tp by simp
      then show ?thesis by simp
    next
      case (snoc post' y)
      then have "run @ [(PATCH rid updateFields, answer)]
                   = (pre @ (SEARCH formula, reply) # post') @ [y]"
        using a t tp by simp
      then have "run = pre @ (SEARCH formula, reply) # post'" "y = (PATCH rid updateFields, answer)"
        by simp_all
      then show ?thesis
        using snoc tp by simp
    qed
  qed
  then obtain post' where run: "run = pre @ (SEARCH formula, reply) # post'"
    and post: "post = post' @ tail"
    by blast
  have "wellChained formulas (pre @ (SEARCH formula, reply) # post')"
    using wc run by simp
  then have "post' = []"
    using a(2)
    by (intro wellChained_stop [of formulas pre "(SEARCH formula, reply)" post']) simp_all
  then show ?thesis
    using run post by simp
qed

text \<open>
  C3: the searches of \<open>updateAirtableRecord\<close> form an ordered fallback chain that stops at
  the first match.  In every run:
  \<^item> the formulas searched for are, in order, a beginning of the chain (identifier if
    not blank, display name, cleaned name);
  \<^item> no search follows an answer that is a match;
  \<^item> when the submission id is blank (empty or whitespace only), no identifier query
    is issued at all, and the searches are a beginning of the list (display-name
    query, cleaned-name query): the cleaned name is only ever tried after the display
    name;
  \<^item> the exchanges are exactly those of \<open>chainRun\<close> on the chain, followed by at most
    one PATCH;
  \<^item> the first query of the chain is issued (if it can be encoded);
  \<^item> after a search that is answered with a miss, the next query of the chain is
    issued (if there is one and it can be encoded);
  \<^item> after a search that is answered with a match, the one exchange that follows is
    the PATCH of the first record of that match.
\<close>

theorem search_fallback_chain:
  "updateAirtableRecord v X w r = (res, exchanges, w') \<Longrightarrow>
     prefix (searchesOf exchanges) (fallbackChain r)
     \<and> (\<forall>pre x post. exchanges = pre @ x # post \<and> isMatch (snd x) \<longrightarrow> searchesOf post = [])
     \<and> (\<not> nonBlank (clubResult.submissionId r) \<longrightarrow>
          (\<forall>sid. submissionIdFilter sid \<notin> set (searchesOf exchanges))
          \<and> prefix (searchesOf exchanges) [nameFilter (clubResult.name r), nameFilter (cleanName r)])
     \<and> (\<exists>rest. exchanges = fst (chainRun X w (fallbackChain r)) @ rest
           \<and> (rest = [] \<or> (\<exists>rid updateFields answer. rest = [(PATCH rid updateFields, answer)])))
     \<and> (fallbackChain r \<noteq> [] \<and> wellFormed (hd (fallbackChain r))
          \<longrightarrow> exchanges \<noteq> [] \<and> fst (hd exchanges) = SEARCH (hd (fallbackChain r)))
     \<and> (\<forall>k formula. k < length exchanges \<and> fst (exchanges ! k) = SEARCH formula
            \<and> isMiss (snd (exchanges ! k))
            \<and> Suc k < length (fallbackChain r) \<and> wellFormed (fallbackChain r ! Suc k)
          \<longrightarrow> Suc k < length exchanges
              \<and> fst (exchanges ! Suc k) = SEARCH (fallbackChain r ! Suc k))
     \<and> (\<forall>pre formula reply post.
            exchanges = pre @ (SEARCH formula, reply) # post \<and> isMatch reply
          \<longrightarrow> (\<exists>updateFields answer.
                 post = [(PATCH (the (matchedId reply)) updateFields, answer)]))"
proof -
  assume u: "updateAirtableRecord v X w r = (res, exchanges, w')"
  obtain searches rest where e: "exchanges = searches @ rest"
    and c: "wellChained (fallbackChain r) searches"
    and p: "rest = [] \<or> (\<exists>rid updateFields reply. rest = [(PATCH rid updateFields, reply)])"
    using updateAirtableRecord_trace [OF u] by blast
  have s: "searchesOf exchanges = searchesOf searches"
    using e p by (auto simp: searchesOf_append searchesOf_patch searchesOf_Nil)
  have 1: "prefix (searchesOf exchanges) (fallbackChain r)"
    unfolding s using c by (rule wellChained_searches)
  have 2: "\<forall>pre x post. exchanges = pre @ x # post \<and> isMatch (snd x) \<longrightarrow> searchesOf post = []"
  proof (intro allI impI)
    fix pre x post
    assume a: "exchanges = pre @ x # post \<and> isMatch (snd x)"
    show "searchesOf post = []"
    proof (cases post rule: rev_cases)
      case Nil
      then show ?thesis by (simp add: searchesOf_def)
    next
      case (snoc post' y)
      show ?thesis
      proof (cases "rest = []")
        case True
        then have "wellChained (fallbackChain r) (pre @ x # post)"
          using c e a by simp
        then have "post = []"
          using a by (intro wellChained_stop [of "fallbackChain r" pre x post]) simp_all
        then show ?thesis by (simp add: searchesOf_def)
      next
        case False
        then obtain rid updateFields reply where r: "rest = [(PATCH rid updateFields, reply)]"
          using p by blast
        then have "searches @ [(PATCH rid updateFields, reply)] = (pre @ x # post') @ [y]"
          using e a snoc by simp
        then have q: "searches = pre @ x # post'" and y: "y = (PATCH rid updateFields, reply)"
          by simp_all
        have "post' = []"
          using c a unfolding q by (intro wellChained_stop [of "fallbackChain r" pre x post']) simp_all
        then show ?thesis
          using snoc y by (simp add: searchesOf_patch)
      qed
    qed
  qed
  have 3: "\<not> nonBlank (clubResult.submissionId r) \<longrightarrow>
          (\<forall>sid. submissionIdFilter sid \<notin> set (searchesOf exchanges))
          \<and> prefix (searchesOf exchanges) [nameFilter (clubResult.name r), nameFilter (cleanName r)]"
  proof (intro impI conjI allI)
    assume b: "\<not> nonBlank (clubResult.submissionId r)"
    show pr: "prefix (searchesOf exchanges) [nameFilter (clubResult.name r), nameFilter (cleanName r)]"
      using 1 blank_id_chain [OF b] by (rule prefix_order.trans)
    fix sid
    have "set (searchesOf exchanges) \<subseteq> {nameFilter (clubResult.name r), nameFilter (cleanName r)}"
      using set_mono_prefix [OF pr] by simp
    then show "submissionIdFilter sid \<notin> set (searchesOf exchanges)"
      using filters_differ [of _ sid] by (metis insertE singletonD subsetD)
  qed
  obtain found lk where f: "findRecord v X w r = (found, lk)"
    by (cases "findRecord v X w r")
  note F = findRecord_chain [OF f]
  let ?run = "fst (chainRun X w (fallbackChain r))"
  have sl: "sent lk = ?run"
    using F by simp
  have wc: "wellChained (fallbackChain r) ?run"
    using findRecord_trace [OF f] sl by simp
  obtain tail where t: "exchanges = ?run @ tail"
    and tl: "tail = [] \<or> (\<exists>rid updateFields answer. tail = [(PATCH rid updateFields, answer)])"
    and tf: "\<forall>rid. found = Inr rid
               \<longrightarrow> (\<exists>updateFields answer. tail = [(PATCH rid updateFields, answer)])"
    using updateAirtableRecord_tail [OF u f] by blast
  have 4: "\<exists>rest. exchanges = ?run @ rest
           \<and> (rest = [] \<or> (\<exists>rid updateFields answer. rest = [(PATCH rid updateFields, answer)]))"
    using t tl by blast
  have 5: "fallbackChain r \<noteq> [] \<and> wellFormed (hd (fallbackChain r))
          \<longrightarrow> exchanges \<noteq> [] \<and> fst (hd exchanges) = SEARCH (hd (fallbackChain r))"
  proof
    assume "fallbackChain r \<noteq> [] \<and> wellFormed (hd (fallbackChain r))"
    then have "?run \<noteq> [] \<and> fst (hd ?run) = SEARCH (hd (fallbackChain r))"
      using chainRun_first [of "fallbackChain r" X w] by simp
    then show "exchanges \<noteq> [] \<and> fst (hd exchanges) = SEARCH (hd (fallbackChain r))"
      unfolding t by simp
  qed
  have 6: "\<forall>k formula. k < length exchanges \<and> fst (exchanges ! k) = SEARCH formula
            \<and> isMiss (snd (exchanges ! k))
            \<and> Suc k < length (fallbackChain r) \<and> wellFormed (fallbackChain r ! Suc k)
          \<longrightarrow> Suc k < length exchanges
              \<and> fst (exchanges ! Suc k) = SEARCH (fallbackChain r ! Suc k)"
  proof (intro allI impI)
    fix k formula
    assume a: "k < length exchanges \<and> fst (exchanges ! k) = SEARCH formula
            \<and> isMiss (snd (exchanges ! k))
            \<and> Suc k < length (fallbackChain r) \<and> wellFormed (fallbackChain r ! Suc k)"
    then have k: "k < length ?run"
      using search_in_run [OF t tl, of k formula] by simp
    then have "exchanges ! k = ?run ! k"
      unfolding t by (simp add: nth_append)
    then have "Suc k < length ?run \<and> fst (?run ! Suc k) = SEARCH (fallbackChain r ! Suc k)"
      using a k by (intro chainRun_next) simp_all
    then show "Suc k < length exchanges
              \<and> fst (exchanges ! Suc k) = SEARCH (fallbackChain r ! Suc k)"
      unfolding t by (simp add: nth_append)
  qed
  have 7: "\<forall>pre formula reply post.
            exchanges = pre @ (SEARCH formula, reply) # post \<and> isMatch reply
          \<longrightarrow> (\<exists>updateFields answer.
                 post = [(PATCH (the (matchedId reply)) updateFields, answer)])"
  proof (intro allI impI)
    fix pre formula reply post
    assume a: "exchanges = pre @ (SEARCH formula, reply) # post \<and> isMatch reply"
    then have m: "?run = pre @ [(SEARCH formula, reply)] \<and> post = tail"
      using match_is_last [OF t tl wc, of pre formula reply post] by simp
    then have "(SEARCH formula, reply) \<in> set (sent lk)"
      using sl by simp
    then have "found = Inr (the (matchedId reply))"
      using F a by auto
    then show "\<exists>updateFields answer.
                 post = [(PATCH (the (matchedId reply)) updateFields, answer)]"
      using tf m by simp
  qed
  show ?thesis
    by (intro conjI 1 2 3 4 5 6 7)
qed

theorem search_fallback_chain_witness:
  "searchesOf (fst (snd (updateAirtableRecord CleanServer
      (storeExternals oneRecordTable (\<lambda>bytes targetWidth. Inr bytes)) Map.empty blankIdResult)))
     = [nameFilter (str ''A''), nameFilter (str ''a'')]
   \<and> submissionIdFilter (str ''  '') \<notin> set (searchesOf (fst (snd (updateAirtableRecord CleanServer
      (storeExternals oneRecordTable (\<lambda>bytes targetWidth. Inr bytes)) Map.empty blankIdResult))))
   \<and> map fst (fst (snd (updateAirtableRecord CleanServer
      (storeExternals oneRecordTable (\<lambda>bytes targetWidth. Inr bytes)) Map.empty knownIdResult)))
     = [SEARCH (submissionIdFilter (str ''s1'')), SEARCH (nameFilter (str ''A'')),
        SEARCH (nameFilter (str ''a'')),
        PATCH (str ''rec1'')
          (updatePayload CleanServer (str ''2024-01-01T00:00:00.000Z'') [heroAsset])]
   \<and> fst (fst (snd (updateAirtableRecord CleanServer
      (storeExternals oneRecordTable (\<lambda>bytes targetWidth. Inr bytes)) Map.empty knownIdResult)) ! 1)
     = SEARCH (fallbackChain knownIdResult ! 1)
   \<and> (\<exists>updateFields answer. drop 3 (fst (snd (updateAirtableRecord CleanServer
      (storeExternals oneRecordTable (\<lambda>bytes targetWidth. Inr bytes)) Map.empty knownIdResult)))
     = [(PATCH (str ''rec1'') updateFields, answer)])"
proof -
  let ?X = "storeExternals oneRecordTable (\<lambda>bytes targetWidth. Inr bytes)"
  let ?miss = "Inr \<lparr>ok = True, status = 200, buffer = Inl (str ''not an image''),
              json = Inr (Some \<lparr>recordsOf = Some [], errorMessageOf = None\<rparr>)\<rparr> :: jsstring + response"
  let ?match = "Inr \<lparr>ok = True, status = 200, buffer = Inl (str ''not an image''),
              json = Inr (Some \<lparr>recordsOf = Some [str ''rec1''], errorMessageOf = None\<rparr>)\<rparr>
              :: jsstring + response"
  let ?done = "Inr \<lparr>ok = True, status = 200, buffer = Inl (str ''not an image''),
              json = Inr (Some \<lparr>recordsOf = None, errorMessageOf = None\<rparr>)\<rparr> :: jsstring + response"
  obtain res exchanges w' where
    u: "updateAirtableRecord CleanServer ?X Map.empty blankIdResult = (res, exchanges, w')"
    by (cases "updateAirtableRecord CleanServer ?X Map.empty blankIdResult")
  obtain res2 exchanges2 w2 where
    u2: "updateAirtableRecord CleanServer ?X Map.empty knownIdResult = (res2, exchanges2, w2)"
    by (cases "updateAirtableRecord CleanServer ?X Map.empty knownIdResult")
  have b: "\<not> nonBlank (clubResult.submissionId blankIdResult)"
    by (simp add: blankIdResult_def nonBlank_def trim_def isSpace_def str_def)
  have n: "nonBlank (str ''A'')" "nonBlank (str ''a'')" "nonBlank (str ''s1'')"
    by (simp_all add: nonBlank_def trim_def isSpace_def str_def)
  have wf: "wellFormed (nameFilter (str ''A''))" "wellFormed (nameFilter (str ''a''))"
    "wellFormed (submissionIdFilter (str ''s1''))"
    by (simp_all add: nameFilter_def submissionIdFilter_def escapeQuotes_def str_def)
  have d: "nameFilter (str ''A'') \<noteq> nameFilter (str ''a'')"
    "submissionIdFilter (str ''s1'') \<noteq> nameFilter (str ''a'')"
    by (simp_all add: nameFilter_def submissionIdFilter_def escapeQuotes_def str_def)
  have 1: "searchesOf exchanges = [nameFilter (str ''A''), nameFilter (str ''a'')]"
    using u b n wf d
    by (auto simp: updateAirtableRecord_def findRecord_def checkFound_def doSearch_def nothingFound_def
        storeExternals_def oneRecordTable_def Let_def searchesOf_def blankIdResult_def)
  have 2: "submissionIdFilter (str ''  '') \<notin> set (searchesOf exchanges)"
    using search_fallback_chain [OF u] b by blast
  have c: "fallbackChain knownIdResult
             = [submissionIdFilter (str ''s1''), nameFilter (str ''A''), nameFilter (str ''a'')]"
    using n by (simp add: fallbackChain_def knownIdResult_def)
  have e2: "exchanges2
              = [(SEARCH (submissionIdFilter (str ''s1'')), ?miss),
                 (SEARCH (nameFilter (str ''A'')), ?miss),
                 (SEARCH (nameFilter (str ''a'')), ?match),
                 (PATCH (str ''rec1'')
                    (updatePayload CleanServer (str ''2024-01-01T00:00:00.000Z'') [heroAsset]), ?done)]"
    using u2 n wf d
    by (auto simp: updateAirtableRecord_def findRecord_def checkFound_def doSearch_def nothingFound_def
        storeExternals_def oneRecordTable_def Let_def knownIdResult_def)
  have 3: "map fst exchanges2
     = [SEARCH (submissionIdFilter (str ''s1'')), SEARCH (nameFilter (str ''A'')),
        SEARCH (nameFilter (str ''a'')),
        PATCH (str ''rec1'')
          (updatePayload CleanServer (str ''2024-01-01T00:00:00.000Z'') [heroAsset])]"
    unfolding e2 by simp
  note T = search_fallback_chain [OF u2]
  have miss: "isMiss ?miss"
    by (simp add: isMiss_def)
  have match: "isMatch ?match" "the (matchedId ?match) = str ''rec1''"
    by (simp_all add: isMatch_def matchedId_def)
  have "0 < length exchanges2 \<and> fst (exchanges2 ! 0) = SEARCH (submissionIdFilter (str ''s1''))
            \<and> isMiss (snd (exchanges2 ! 0))
            \<and> Suc 0 < length (fallbackChain knownIdResult)
            \<and> wellFormed (fallbackChain knownIdResult ! Suc 0)"
    unfolding e2 c using miss wf by simp
  then have 4: "fst (exchanges2 ! 1) = SEARCH (fallbackChain knownIdResult ! 1)"
    using T by (metis One_nat_def)
  have "exchanges2 = [(SEARCH (submissionIdFilter (str ''s1'')), ?miss),
                 (SEARCH (nameFilter (str ''A'')), ?miss)]
           @ (SEARCH (nameFilter (str ''a'')), ?match) # drop 3 exchanges2 \<and> isMatch ?match"
    unfolding e2 using match by simp
  then have 5: "\<exists>updateFields answer.
      drop 3 exchanges2 = [(PATCH (str ''rec1'') updateFields, answer)]"
    using T match(2) by metis
  show ?thesis
    using 1 2 3 4 5 u u2 by simp
qed

section \<open>The update map of \<open>updateAirtableRecord\<close>\<close>

lemma setField_names: "fieldNames (setField k v fs) = insert k (fieldNames fs)"
proof (induction fs)
  case Nil
  show ?case by (simp add: fieldNames_def)
next
  case (Cons x fs)
  then show ?case
    by (cases x) (simp add: fieldNames_def insert_commute)
qed

lemma setField_map_of: "map_of (setField k v fs) = (map_of fs)(k \<mapsto> v)"
  by (induction fs) (auto simp: fun_upd_twist)

lemma setAt_nonempty: "setAt i url a \<noteq> []"
  by (simp add: setAt_def)

lemma definedUrls_set: "set (definedUrls a) = {url. Some url \<in> set a \<and> url \<noteq> []}"
  by (induction a) (auto simp: definedUrls_def split: option.splits)

lemma setAt_urls: "set (definedUrls (setAt i url a)) \<subseteq> insert url (set (definedUrls a))"
proof -
  have "set (setAt i url a) \<subseteq> insert (Some url) (set (a @ replicate (Suc i - length a) None))"
    unfolding setAt_def by (rule set_update_subset_insert)
  then show ?thesis
    by (auto simp: definedUrls_set)
qed

lemma addProcessed_effect:
  assumes "addProcessed p (fs, g) = (fs', g')"
  shows "fieldNames fs' = fieldNames fs \<union> set (slotFields (type p))"
    and "g' \<noteq> [] \<longleftrightarrow> g \<noteq> [] \<or> isGallerySlot (type p)"
    and "set (definedUrls g') \<subseteq> set (definedUrls g) \<union> galleryUrlsIn [p]"
proof -
  show "fieldNames fs' = fieldNames fs \<union> set (slotFields (type p))"
    using assms
    by (cases "type p") (auto simp: addProcessed_def slotFields_def setField_names split: if_splits)
  show "g' \<noteq> [] \<longleftrightarrow> g \<noteq> [] \<or> isGallerySlot (type p)"
    using assms
    by (cases "type p") (auto simp: addProcessed_def isGallerySlot_def setAt_nonempty split: if_splits)
  show "set (definedUrls g') \<subseteq> set (definedUrls g) \<union> galleryUrlsIn [p]"
    using assms setAt_urls [of _ "cloudinaryUrl p" g]
    by (cases "type p")
      (auto simp: addProcessed_def isGallerySlot_def galleryUrlsIn_def split: if_splits)
qed

lemma addAllProcessed_effect:
  "addAllProcessed ps (fs, g) = (fs', g') \<Longrightarrow>
     fieldNames fs' = fieldNames fs \<union> (\<Union>p \<in> set ps. set (slotFields (type p)))
     \<and> (g' \<noteq> [] \<longleftrightarrow> g \<noteq> [] \<or> (\<exists>p \<in> set ps. isGallerySlot (type p)))
     \<and> set (definedUrls g') \<subseteq> set (definedUrls g) \<union> galleryUrlsIn ps"
proof (induction ps arbitrary: fs g)
  case Nil
  then show ?case by simp
next
  case (Cons p ps)
  obtain fs1 g1 where a: "addProcessed p (fs, g) = (fs1, g1)"
    by (cases "addProcessed p (fs, g)")
  then have r: "addAllProcessed ps (fs1, g1) = (fs', g')"
    using Cons.prems by simp
  have u: "galleryUrlsIn (p # ps) = galleryUrlsIn [p] \<union> galleryUrlsIn ps"
    by (auto simp: galleryUrlsIn_def)
  show ?case
    using Cons.IH [OF r] addProcessed_effect [OF a] unfolding u by auto
qed

lemma slotFields_inj:
  "k \<in> set (slotFields t) \<Longrightarrow> k \<in> set (slotFields t') \<Longrightarrow> t = t'"
  by (cases t; cases t') (auto simp: slotFields_def str_def split: if_splits)

lemma slotFields_other:
  "k \<in> set (slotFields t) \<Longrightarrow> k \<noteq> aggregateField v \<and> k \<notin> set (markerFields v)"
  by (cases t; cases v)
    (auto simp: slotFields_def aggregateField_def markerFields_def str_def split: if_splits)

lemma payload_names:
  "fieldNames (updatePayload v timestamp ps)
     = (\<Union>p \<in> set ps. set (slotFields (type p)))
       \<union> (if \<exists>p \<in> set ps. isGallerySlot (type p) then {aggregateField v} else {})
       \<union> set (markerFields v)"
proof -
  obtain fs g where a: "addAllProcessed ps ([], []) = (fs, g)"
    by (cases "addAllProcessed ps ([], [])")
  have n: "fieldNames fs = (\<Union>p \<in> set ps. set (slotFields (type p)))"
    and e: "g \<noteq> [] \<longleftrightarrow> (\<exists>p \<in> set ps. isGallerySlot (type p))"
    using addAllProcessed_effect [OF a] by (simp_all add: fieldNames_def)
  show ?thesis
  proof (cases v)
    case CleanServer
    then show ?thesis
      using n e
      by (auto simp: updatePayload_def buildUpdateFields_def a setField_names aggregateField_def
          markerFields_def)
  next
    case WebhookServer
    then show ?thesis
      using n e
      by (auto simp: updatePayload_def buildUpdateFields_webhook_def a setField_names
          aggregateField_def markerFields_def)
  qed
qed

lemma payload_absent_slot:
  assumes "\<forall>p \<in> set ps. type p \<noteq> t" and "k \<in> set (slotFields t)"
  shows "k \<notin> fieldNames (updatePayload v timestamp ps)"
proof
  assume "k \<in> fieldNames (updatePayload v timestamp ps)"
  then have "\<exists>p \<in> set ps. k \<in> set (slotFields (type p))"
    using slotFields_other [OF assms(2), of v] unfolding payload_names
    by (auto split: if_splits)
  then show False
    using assms slotFields_inj by blast
qed

lemma payload_markers:
  "map_of (buildUpdateFields timestamp ps) (str ''Status'') = Some (Text (str ''Images Processed''))
   \<and> map_of (buildUpdateFields timestamp ps) (str ''Last Modified'') = Some (Text timestamp)
   \<and> map_of (buildUpdateFields timestamp ps) (str ''Processed'') = Some (Number 1)"
  by (cases "addAllProcessed ps ([], [])")
    (simp add: buildUpdateFields_def setField_map_of str_def)

lemma payload_aggregate:
  assumes "\<exists>p \<in> set ps. isGallerySlot (type p)"
  shows "\<exists>urls. map_of (updatePayload v timestamp ps) (aggregateField v) = Some (aggregateValue v urls)
           \<and> set urls \<subseteq> galleryUrlsIn ps"
proof -
  obtain fs g where a: "addAllProcessed ps ([], []) = (fs, g)"
    by (cases "addAllProcessed ps ([], [])")
  have e: "g \<noteq> []" and u: "set (definedUrls g) \<subseteq> galleryUrlsIn ps"
    using addAllProcessed_effect [OF a] assms by (simp_all add: definedUrls_def)
  have "map_of (updatePayload v timestamp ps) (aggregateField v) = Some (aggregateValue v (definedUrls g))"
    using e
    by (cases v)
      (simp_all add: updatePayload_def buildUpdateFields_def buildUpdateFields_webhook_def a
        setField_map_of aggregateField_def aggregateValue_def str_def)
  with u show ?thesis by blast
qed

lemma patchRecord_frame:
  "k \<notin> fieldNames updateFields \<Longrightarrow> patchRecord record_fields updateFields k = record_fields k"
proof -
  assume "k \<notin> fieldNames updateFields"
  then have "map_of updateFields k = None"
    by (simp add: fieldNames_def map_of_eq_None_iff)
  then show ?thesis
    by (simp add: patchRecord_def map_add_def)
qed

lemma update_sends_payload:
  assumes "updateAirtableRecord v X w r = (Inr u, exchanges, w')"
  shows "\<exists>rid timestamp reply.
           exchanges \<noteq> []
           \<and> last exchanges = (PATCH rid (updatePayload v timestamp (processed r)), reply)
           \<and> recordId u = rid
           \<and> fieldsUpdated u = length (updatePayload v timestamp (processed r))"
proof -
  obtain found lk where f: "findRecord v X w r = (found, lk)"
    by (cases "findRecord v X w r")
  show ?thesis
  proof (cases found)
    case (Inl e)
    then show ?thesis
      using assms f by (simp add: updateAirtableRecord_def)
  next
    case (Inr rid)
    let ?req = "PATCH rid (updatePayload v (now X (world lk)) (processed r))"
    obtain reply w1 where p: "fetch X (world lk) ?req = (reply, w1)"
      by (cases "fetch X (world lk) ?req")
    have "exchanges = sent lk @ [(?req, reply)] \<and> recordId u = rid
           \<and> fieldsUpdated u = length (updatePayload v (now X (world lk)) (processed r))"
      using assms f Inr p
      by (auto simp: updateAirtableRecord_def Let_def split: sum.splits option.splits if_splits)
    then show ?thesis
      by auto
  qed
qed

lemma marker_not_slot:
  "k \<in> set (markerFields CleanServer) \<Longrightarrow> k \<notin> fieldNames (updatePayload WebhookServer timestamp ps)"
proof
  assume m: "k \<in> set (markerFields CleanServer)"
  assume "k \<in> fieldNames (updatePayload WebhookServer timestamp ps)"
  then have "(\<exists>p \<in> set ps. k \<in> set (slotFields (type p))) \<or> k = aggregateField WebhookServer"
    unfolding payload_names by (auto simp: markerFields_def split: if_splits)
  then show False
    using m slotFields_other [of k _ CleanServer]
    by (auto simp: markerFields_def aggregateField_def str_def)
qed

lemma lastOfType_snoc:
  "lastOfType t (ps @ [p]) = (if type p = t then Some p else lastOfType t ps)"
  by (simp add: lastOfType_def)

lemma lastOfType_type:
  assumes "lastOfType t ps = Some p"
  shows "type p = t \<and> p \<in> set ps"
proof -
  from assms obtain i where "i < length (rev ps)" "type (rev ps ! i) = t" "p = rev ps ! i"
    by (auto simp: lastOfType_def find_Some_iff)
  then show ?thesis
    using nth_mem [of i "rev ps"] by simp
qed

lemma lastOfType_some: "p \<in> set ps \<Longrightarrow> \<exists>q. lastOfType (type p) ps = Some q"
  by (cases "lastOfType (type p) ps") (auto simp: lastOfType_def find_None_iff)

lemma slotValues_names: "map fst (slotValues p) = slotFields (type p)"
  by (cases "type p") (simp_all add: slotValues_def slotFields_def)

lemma addAllProcessed_snoc:
  "addAllProcessed (ps @ [p]) s = addProcessed p (addAllProcessed ps s)"
  by (induction ps arbitrary: s) simp_all

lemma addProcessed_other:
  assumes "addProcessed p (fs, g) = (fs', g')" and "k \<notin> set (slotFields (type p))"
  shows "map_of fs' k = map_of fs k"
  using assms
  by (cases "type p") (auto simp: addProcessed_def slotFields_def setField_map_of split: if_splits)

lemma addProcessed_values:
  assumes "addProcessed p (fs, g) = (fs', g')" and "(k, val) \<in> set (slotValues p)"
  shows "map_of fs' k = Some val"
  using assms
  by (cases "type p")
    (auto simp: addProcessed_def slotValues_def setField_map_of str_def split: if_splits)

lemma addAllProcessed_values:
  assumes "addAllProcessed ps ([], []) = (fs, g)"
    and "lastOfType t ps = Some p" and "(k, val) \<in> set (slotValues p)"
  shows "map_of fs k = Some val"
  using assms
proof (induction ps arbitrary: fs g p rule: rev_induct)
  case Nil
  then show ?case by (simp add: lastOfType_def)
next
  case (snoc q ps)
  obtain fs0 g0 where a: "addAllProcessed ps ([], []) = (fs0, g0)"
    by (cases "addAllProcessed ps ([], [])")
  then have s: "addProcessed q (fs0, g0) = (fs, g)"
    using snoc.prems(1) by (simp add: addAllProcessed_snoc)
  show ?case
  proof (cases "type q = t")
    case True
    then have "p = q"
      using snoc.prems(2) by (simp add: lastOfType_snoc)
    then show ?thesis
      using addProcessed_values [OF s] snoc.prems(3) by simp
  next
    case False
    then have l: "lastOfType t ps = Some p"
      using snoc.prems(2) by (simp add: lastOfType_snoc)
    then have "type p = t"
      using lastOfType_type by blast
    then have "k \<in> set (slotFields t)"
      using snoc.prems(3) slotValues_names [of p] by (metis fst_conv image_eqI set_map)
    then have "k \<notin> set (slotFields (type q))"
      using False slotFields_inj by blast
    then have "map_of fs k = map_of fs0 k"
      using addProcessed_other [OF s] by simp
    then show ?thesis
      using snoc.IH [OF a l snoc.prems(3)] by simp
  qed
qed

lemma definedUrls_fourSlots: "definedUrls (fourSlots a) = definedUrls a"
  by (simp add: fourSlots_def definedUrls_def)

lemma fourSlots_setAt:
  "i < 4 \<Longrightarrow> length a \<le> 4
     \<Longrightarrow> fourSlots (setAt i url a) = (fourSlots a)[i := Some url]
         \<and> length (setAt i url a) \<le> 4"
  by (auto simp: fourSlots_def setAt_def list_eq_iff_nth_eq nth_append nth_list_update)

lemma lastUrls_snoc:
  "lastUrls (ps @ [p])
     = (case type p of
          Hero \<Rightarrow> lastUrls ps
        | Logo \<Rightarrow> lastUrls ps
        | Gallery n \<Rightarrow>
            if 1 \<le> n \<and> n \<le> 4 then (lastUrls ps)[n - 1 := Some (cloudinaryUrl p)] else lastUrls ps)"
proof (cases "type p")
  case Hero
  then show ?thesis by (simp add: lastUrls_def lastOfType_snoc)
next
  case Logo
  then show ?thesis by (simp add: lastUrls_def lastOfType_snoc)
next
  case (Gallery n)
  show ?thesis
  proof (cases "1 \<le> n \<and> n \<le> 4")
    case True
    then have "n = 1 \<or> n = 2 \<or> n = 3 \<or> n = 4"
      by arith
    then show ?thesis
      using Gallery by (auto simp: lastUrls_def lastOfType_snoc)
  next
    case False
    then show ?thesis
      using Gallery by (auto simp: lastUrls_def lastOfType_snoc)
  qed
qed

lemma addAllProcessed_gallery:
  "addAllProcessed ps ([], []) = (fs, g) \<Longrightarrow> length g \<le> 4 \<and> fourSlots g = lastUrls ps"
proof (induction ps arbitrary: fs g rule: rev_induct)
  case Nil
  then show ?case
    by (simp add: fourSlots_def lastUrls_def lastOfType_def eval_nat_numeral)
next
  case (snoc q ps)
  obtain fs0 g0 where a: "addAllProcessed ps ([], []) = (fs0, g0)"
    by (cases "addAllProcessed ps ([], [])")
  then have s: "addProcessed q (fs0, g0) = (fs, g)"
    using snoc.prems(1) by (simp add: addAllProcessed_snoc)
  have IH: "length g0 \<le> 4" "fourSlots g0 = lastUrls ps"
    using snoc.IH [OF a] by simp_all
  show ?case
  proof (cases "type q")
    case Hero
    then show ?thesis
      using s IH by (auto simp: addProcessed_def lastUrls_snoc)
  next
    case Logo
    then show ?thesis
      using s IH by (auto simp: addProcessed_def lastUrls_snoc)
  next
    case (Gallery n)
    show ?thesis
    proof (cases "1 \<le> n \<and> n \<le> 4")
      case False
      then show ?thesis
        using s IH Gallery by (auto simp: addProcessed_def lastUrls_snoc split: if_splits)
    next
      case True
      then have "n = 1 \<or> n = 2 \<or> n = 3 \<or> n = 4"
        by arith
      then have g: "g = setAt (n - 1) (cloudinaryUrl q) g0"
        using s Gallery by (auto simp: addProcessed_def split: if_splits)
      have "n - 1 < 4"
        using True by arith
      from fourSlots_setAt [OF this IH(1), of "cloudinaryUrl q"] show ?thesis
        unfolding g using IH(2) Gallery True by (simp add: lastUrls_snoc)
    qed
  qed
qed

lemma definedUrls_lastUrls: "definedUrls (lastUrls ps) = galleryAggregate ps"
  by (simp add: definedUrls_def lastUrls_def galleryAggregate_def split: option.splits)

lemma addAllProcessed_aggregate:
  "addAllProcessed ps ([], []) = (fs, g) \<Longrightarrow> definedUrls g = galleryAggregate ps"
  using addAllProcessed_gallery [of ps fs g] definedUrls_fourSlots [of g] definedUrls_lastUrls [of ps]
  by simp

lemma payload_slot_value:
  assumes "lastOfType t ps = Some p" and "(k, val) \<in> set (slotValues p)"
  shows "map_of (updatePayload v timestamp ps) k = Some val"
proof -
  obtain fs g where a: "addAllProcessed ps ([], []) = (fs, g)"
    by (cases "addAllProcessed ps ([], [])")
  have m: "map_of fs k = Some val"
    using addAllProcessed_values [OF a assms] .
  have "k \<in> set (slotFields (type p))"
    using assms(2) slotValues_names [of p] by (metis fst_conv image_eqI set_map)
  then have o: "k \<noteq> aggregateField v \<and> k \<notin> set (markerFields v)"
    by (rule slotFields_other)
  show ?thesis
  proof (cases v)
    case CleanServer
    then show ?thesis
      using m o
      by (simp add: updatePayload_def buildUpdateFields_def a setField_map_of aggregateField_def
          markerFields_def)
  next
    case WebhookServer
    then show ?thesis
      using m o
      by (simp add: updatePayload_def buildUpdateFields_webhook_def a setField_map_of
          aggregateField_def markerFields_def)
  qed
qed

lemma payload_aggregate_value:
  assumes "\<exists>p \<in> set ps. isGallerySlot (type p)"
  shows "map_of (updatePayload v timestamp ps) (aggregateField v)
           = Some (aggregateValue v (galleryAggregate ps))"
proof -
  obtain fs g where a: "addAllProcessed ps ([], []) = (fs, g)"
    by (cases "addAllProcessed ps ([], [])")
  have e: "g \<noteq> []"
    using addAllProcessed_effect [OF a] assms by simp
  have u: "definedUrls g = galleryAggregate ps"
    using a by (rule addAllProcessed_aggregate)
  show ?thesis
    using e
    by (cases v)
      (simp_all add: updatePayload_def buildUpdateFields_def buildUpdateFields_webhook_def a
        setField_map_of aggregateField_def aggregateValue_def str_def u)
qed

lemma payload_no_aggregate:
  assumes "\<not> (\<exists>p \<in> set ps. isGallerySlot (type p))"
  shows "map_of (updatePayload v timestamp ps) (aggregateField v) = None"
proof -
  have "aggregateField v \<notin> set (markerFields v)"
    by (cases v) (simp_all add: aggregateField_def markerFields_def str_def)
  moreover have "\<forall>p \<in> set ps. aggregateField v \<notin> set (slotFields (type p))"
    using slotFields_other [of "aggregateField v" _ v] by blast
  ultimately have "aggregateField v \<notin> fieldNames (updatePayload v timestamp ps)"
    using assms unfolding payload_names by simp
  then show ?thesis
    by (simp add: fieldNames_def map_of_eq_None_iff)
qed

text \<open>
  C4, as far as the code goes: after a match, the PATCH that \<open>updateAirtableRecord\<close>
  sends carries the update map of the processed images.
  \<^item> The map has the fields of the slots that are in \<open>processed\<close>, the aggregate gallery
    field when a gallery slot is among them, and the marker fields of the server file,
    and no other field; a slot that is not in \<open>processed\<close> (one that failed) has none of
    its fields in the map.
  \<^item> Each field of a slot has the value that the asset of the slot gives it
    (\<open>slotValues\<close>: the published URL and the alt text for hero and logo, the alt text
    for a gallery slot).
  \<^item> The aggregate field is there exactly when a gallery slot is in \<open>processed\<close>, and
    its value is the list of the published URLs of all the gallery slots that are,
    in the order of the slots (\<open>galleryAggregate\<close>): a multi-value field, the JSON text
    of the list in the first server file, an array of attachments in the webhook
    server file.
  \<^item> The first server file (part_000) sets \<open>Status\<close>, \<open>Last Modified\<close> and \<open>Processed\<close> in
    every update map; the webhook server file (part_001) sets none of them.
  \<^item> The request is a PATCH: in the record store of the spec, a field that is not in
    the map keeps its value.
\<close>

theorem update_map_by_slot:
  "(updateAirtableRecord v X w r = (Inr u, exchanges, w') \<longrightarrow>
      (\<exists>rid stamp reply. exchanges \<noteq> []
          \<and> last exchanges = (PATCH rid (updatePayload v stamp (processed r)), reply)))
   \<and> fieldNames (updatePayload v timestamp ps)
       = (\<Union>p \<in> set ps. set (slotFields (type p)))
         \<union> (if \<exists>p \<in> set ps. isGallerySlot (type p) then {aggregateField v} else {})
         \<union> set (markerFields v)
   \<and> (\<forall>t k. (\<forall>p \<in> set ps. type p \<noteq> t) \<and> k \<in> set (slotFields t)
          \<longrightarrow> k \<notin> fieldNames (updatePayload v timestamp ps))
   \<and> ((\<exists>p \<in> set ps. isGallerySlot (type p)) \<longrightarrow>
        (\<exists>urls. map_of (updatePayload v timestamp ps) (aggregateField v) = Some (aggregateValue v urls)
            \<and> set urls \<subseteq> galleryUrlsIn ps))
   \<and> map_of (updatePayload CleanServer timestamp ps) (str ''Status'')
        = Some (Text (str ''Images Processed''))
   \<and> map_of (updatePayload CleanServer timestamp ps) (str ''Last Modified'') = Some (Text timestamp)
   \<and> map_of (updatePayload CleanServer timestamp ps) (str ''Processed'') = Some (Number 1)
   \<and> (\<forall>k \<in> set (markerFields CleanServer). k \<notin> fieldNames (updatePayload WebhookServer timestamp ps))
   \<and> (\<forall>k. k \<notin> fieldNames (updatePayload v timestamp ps)
          \<longrightarrow> patchRecord record_fields (updatePayload v timestamp ps) k = record_fields k)
   \<and> (\<forall>t p k val. lastOfType t ps = Some p \<and> (k, val) \<in> set (slotValues p)
          \<longrightarrow> map_of (updatePayload v timestamp ps) k = Some val)
   \<and> map_of (updatePayload v timestamp ps) (aggregateField v)
       = (if \<exists>p \<in> set ps. isGallerySlot (type p)
          then Some (aggregateValue v (galleryAggregate ps)) else None)"
proof (intro conjI)
  show "updateAirtableRecord v X w r = (Inr u, exchanges, w') \<longrightarrow>
      (\<exists>rid stamp reply. exchanges \<noteq> []
          \<and> last exchanges = (PATCH rid (updatePayload v stamp (processed r)), reply))"
    using update_sends_payload [of v X w r u exchanges w'] by blast
  show "fieldNames (updatePayload v timestamp ps)
       = (\<Union>p \<in> set ps. set (slotFields (type p)))
         \<union> (if \<exists>p \<in> set ps. isGallerySlot (type p) then {aggregateField v} else {})
         \<union> set (markerFields v)"
    by (rule payload_names)
  show "\<forall>t k. (\<forall>p \<in> set ps. type p \<noteq> t) \<and> k \<in> set (slotFields t)
          \<longrightarrow> k \<notin> fieldNames (updatePayload v timestamp ps)"
    using payload_absent_slot by blast
  show "(\<exists>p \<in> set ps. isGallerySlot (type p)) \<longrightarrow>
        (\<exists>urls. map_of (updatePayload v timestamp ps) (aggregateField v) = Some (aggregateValue v urls)
            \<and> set urls \<subseteq> galleryUrlsIn ps)"
    using payload_aggregate by blast
  show "map_of (updatePayload CleanServer timestamp ps) (str ''Status'')
        = Some (Text (str ''Images Processed''))"
    using payload_markers [of timestamp ps] by (simp add: updatePayload_def)
  show "map_of (updatePayload CleanServer timestamp ps) (str ''Last Modified'') = Some (Text timestamp)"
    using payload_markers [of timestamp ps] by (simp add: updatePayload_def)
  show "map_of (updatePayload CleanServer timestamp ps) (str ''Processed'') = Some (Number 1)"
    using payload_markers [of timestamp ps] by (simp add: updatePayload_def)
  show "\<forall>k \<in> set (markerFields CleanServer). k \<notin> fieldNames (updatePayload WebhookServer timestamp ps)"
    using marker_not_slot by blast
  show "\<forall>k. k \<notin> fieldNames (updatePayload v timestamp ps)
          \<longrightarrow> patchRecord record_fields (updatePayload v timestamp ps) k = record_fields k"
    using patchRecord_frame by blast
  show "\<forall>t p k val. lastOfType t ps = Some p \<and> (k, val) \<in> set (slotValues p)
          \<longrightarrow> map_of (updatePayload v timestamp ps) k = Some val"
    using payload_slot_value by blast
  show "map_of (updatePayload v timestamp ps) (aggregateField v)
       = (if \<exists>p \<in> set ps. isGallerySlot (type p)
          then Some (aggregateValue v (galleryAggregate ps)) else None)"
    using payload_aggregate_value [of ps v timestamp] payload_no_aggregate [of ps v timestamp]
    by simp
qed

lemmas payload_eval =
  updatePayload_def buildUpdateFields_def buildUpdateFields_webhook_def addProcessed_def
  setAt_def definedUrls_def heroAsset_def galleryAsset_def

theorem update_map_by_slot_witness:
  "updatePayload CleanServer (str ''t'') [heroAsset, galleryAsset]
     = [(str ''Hero URL'', Text (str ''https://cdn/a-hero'')),
        (str ''Hero Alt Text'', Text (str ''A hero image'')),
        (str ''Gallery 2 Alt Text'', Text (str ''A group photo'')),
        (str ''Gallery URLs (JSON)'', JsonText [str ''https://cdn/a-gallery-2'']),
        (str ''Status'', Text (str ''Images Processed'')),
        (str ''Last Modified'', Text (str ''t'')),
        (str ''Processed'', Number 1)]
   \<and> str ''Logo URL'' \<notin> fieldNames (updatePayload CleanServer (str ''t'') [heroAsset, galleryAsset])
   \<and> map_of (updatePayload WebhookServer (str ''t'') [galleryAsset3, heroAsset, galleryAsset])
        (str ''Photo Gallery Url'')
      = Some (Attachments [str ''https://cdn/a-gallery-2'', str ''https://cdn/a-gallery-3''])
   \<and> map_of (updatePayload WebhookServer (str ''t'') [galleryAsset3, heroAsset, galleryAsset])
        (str ''Hero URL'')
      = Some (Text (str ''https://cdn/a-hero''))"
proof -
  have e: "updatePayload CleanServer (str ''t'') [heroAsset, galleryAsset]
     = [(str ''Hero URL'', Text (str ''https://cdn/a-hero'')),
        (str ''Hero Alt Text'', Text (str ''A hero image'')),
        (str ''Gallery 2 Alt Text'', Text (str ''A group photo'')),
        (str ''Gallery URLs (JSON)'', JsonText [str ''https://cdn/a-gallery-2'']),
        (str ''Status'', Text (str ''Images Processed'')),
        (str ''Last Modified'', Text (str ''t'')),
        (str ''Processed'', Number 1)]"
    by (simp add: payload_eval str_def)
  have h: "(\<forall>p \<in> set [heroAsset, galleryAsset]. type p \<noteq> Logo) \<and> str ''Logo URL'' \<in> set (slotFields Logo)"
    by (simp add: heroAsset_def galleryAsset_def slotFields_def)
  have 1: "str ''Logo URL'' \<notin> fieldNames (updatePayload CleanServer (str ''t'') [heroAsset, galleryAsset])"
    using update_map_by_slot [of CleanServer _ _ _ _ _ _ "str ''t''" "[heroAsset, galleryAsset]",
        THEN conjunct2, THEN conjunct2, THEN conjunct1, rule_format, OF h] .
  let ?ps = "[galleryAsset3, heroAsset, galleryAsset]"
  note T = update_map_by_slot [of WebhookServer _ _ _ _ _ _ "str ''t''" ?ps]
  have g: "\<exists>p \<in> set ?ps. isGallerySlot (type p)"
    by (simp add: galleryAsset_def isGallerySlot_def)
  have a: "galleryAggregate ?ps = [str ''https://cdn/a-gallery-2'', str ''https://cdn/a-gallery-3'']"
    by (simp add: galleryAggregate_def lastOfType_def heroAsset_def galleryAsset_def
        galleryAsset3_def str_def)
  have 2: "map_of (updatePayload WebhookServer (str ''t'') ?ps) (str ''Photo Gallery Url'')
      = Some (Attachments [str ''https://cdn/a-gallery-2'', str ''https://cdn/a-gallery-3''])"
    using T [THEN conjunct2, THEN conjunct2, THEN conjunct2, THEN conjunct2, THEN conjunct2,
        THEN conjunct2, THEN conjunct2, THEN conjunct2, THEN conjunct2, THEN conjunct2] g
    by (simp add: a aggregateField_def aggregateValue_def)
  have l: "lastOfType Hero ?ps = Some heroAsset
           \<and> (str ''Hero URL'', Text (str ''https://cdn/a-hero'')) \<in> set (slotValues heroAsset)"
    by (simp add: lastOfType_def slotValues_def heroAsset_def galleryAsset_def)
  have 3: "map_of (updatePayload WebhookServer (str ''t'') ?ps) (str ''Hero URL'')
      = Some (Text (str ''https://cdn/a-hero''))"
    using T [THEN conjunct2, THEN conjunct2, THEN conjunct2, THEN conjunct2, THEN conjunct2,
        THEN conjunct2, THEN conjunct2, THEN conjunct2, THEN conjunct2, THEN conjunct1,
        rule_format, OF l] .
  show ?thesis
    by (intro conjI e 1 2 3)
qed

text \<open>
  C4 as it is stated fails on the webhook server file: after a match, its update map
  for a result with a processed hero image has the two hero fields and nothing else:
  no status, last-modified or processed marker.
\<close>

theorem webhook_update_sets_no_marker:
  "map fst (fst (snd (updateAirtableRecord WebhookServer
      (storeExternals oneRecordTable (\<lambda>bytes targetWidth. Inr bytes)) Map.empty matchedResult)))
   = [SEARCH (nameFilter (str ''a'')),
      PATCH (str ''rec1'')
        [(str ''Hero URL'', Text (str ''https://cdn/a-hero'')),
         (str ''Hero Alt Text'', Text (str ''A hero image''))]]"
proof -
  have n: "nonBlank (str ''a'')" "\<not> nonBlank []"
    by (simp_all add: nonBlank_def trim_def isSpace_def str_def)
  have wf: "wellFormed (nameFilter (str ''a''))"
    by (simp add: nameFilter_def escapeQuotes_def str_def)
  have p: "updatePayload WebhookServer timestamp [heroAsset]
      = [(str ''Hero URL'', Text (str ''https://cdn/a-hero'')),
         (str ''Hero Alt Text'', Text (str ''A hero image''))]" for timestamp
    by (simp add: payload_eval str_def)
  show ?thesis
    using n wf
    by (simp add: updateAirtableRecord_def findRecord_def checkFound_def doSearch_def nothingFound_def
        storeExternals_def oneRecordTable_def matchedResult_def Let_def p)
qed

section \<open>A result with no submission id and no name\<close>

lemma nameless_from_csv:
  "map_sum id
     (map (\<lambda>r. (clubResult.name r, cleanName r, clubResult.submissionId r, map type (processed r),
                 errors r)))
     (fst (processImagesHandler CleanServer
        (storeExternals oneRecordTable (\<lambda>bytes targetWidth. Inr bytes)) Map.empty
        (parseCSV exampleUrl id (str ''h\<newline>,,,,,,,,,,,,,,,,,,,,,,,,,,,https://a/1,,''))))
   = Inr [([], str ''unknown-club'', [], [Hero], [(AirtableUpdateFailed, TypeError)])]"
proof -
  let ?csv = "str ''h\<newline>,,,,,,,,,,,,,,,,,,,,,,,,,,,https://a/1,,''"
  let ?v1 = "[[], [], [], [], [], [], [], [], [], [], [], [], [], [], [], [], [], [], [], [], [], [], [], [], [], [], [],
      str ''https://a/1'', [], []]"
  let ?X = "storeExternals oneRecordTable (\<lambda>bytes targetWidth. Inr bytes)"
  define c1 where "c1 = the (extractClub exampleUrl id ?v1)"
  have rows: "parseRows ?csv = [[str ''h''], ?v1]"
    by (simp add: scan_eval)
  have e1: "extractClub exampleUrl id ?v1 = Some c1"
    by (simp add: c1_def extractClub_def Let_def exampleUrl_def str_def trim_def)
  have h1: "heroImage c1 = Some (str ''https://a/1'')" "logoImage c1 = None" "galleryImages c1 = []"
    "originalName c1 = []" "club.submissionId c1 = []" "club.name c1 = str ''unknown-club''"
    by (simp_all add: c1_def extractClub_def Let_def exampleUrl_def str_def trim_def
        cleanClubName_def removeAll_re_def toLowerCase_def asciiLower_def isWord_def isSpace_def)
  have clubs: "parseCSV exampleUrl id ?csv = [c1]"
    by (simp add: parseCSV_def rows e1)
  have b: "\<not> nonBlank []"
    by (simp add: nonBlank_def)
  have ne: "str ''https://a/1'' \<noteq> []"
    by (simp add: str_def)
  show ?thesis
    unfolding clubs using b ne
    by (simp add: processImagesHandler_def processClub_def galleryLoop_stop trySlot_def
        processImageToCloudinary_def storeExternals_def storeUpload_def oneRecordTable_def echo_def
        reconcileResult_def updateAirtableRecord_def findRecord_def checkFound_def nothingFound_def Let_def h1)
qed

text \<open>
  C5: the claim is that \<open>updateAirtableRecord\<close> fails with the no-match error when no
  search is attempted.  For a result with an empty submission id and an empty name the
  code makes no request and runs into \<open>searchResponse.ok\<close> with \<open>searchResponse\<close>
  undefined: it throws a \<open>TypeError\<close>, which the handler records like any other failure
  of the update.  The handler gets to such a result from a CSV file: a data row with
  empty submission-id and club-name columns and a hero image that is processed.
\<close>

theorem no_search_throws_TypeError:
  "updateAirtableRecord v X w namelessResult = (Inl TypeError, [], w)
   \<and> reconcileResult v X w namelessResult
       = (namelessResult\<lparr>errors := [(AirtableUpdateFailed, TypeError)]\<rparr>, w)
   \<and> map_sum id
       (map (\<lambda>r. (clubResult.name r, cleanName r, clubResult.submissionId r, map type (processed r),
                   errors r)))
       (fst (processImagesHandler CleanServer
          (storeExternals oneRecordTable (\<lambda>bytes targetWidth. Inr bytes)) Map.empty
          (parseCSV exampleUrl id (str ''h\<newline>,,,,,,,,,,,,,,,,,,,,,,,,,,,https://a/1,,''))))
     = Inr [([], str ''unknown-club'', [], [Hero], [(AirtableUpdateFailed, TypeError)])]"
proof -
  have b: "\<not> nonBlank []"
    by (simp add: nonBlank_def)
  have u: "updateAirtableRecord v X w namelessResult = (Inl TypeError, [], w)"
    using b by (simp add: updateAirtableRecord_def findRecord_def checkFound_def nothingFound_def
        namelessResult_def Let_def)
  have "processed namelessResult \<noteq> []" "errors namelessResult = []"
    by (simp_all add: namelessResult_def)
  then have "reconcileResult v X w namelessResult
       = (namelessResult\<lparr>errors := [(AirtableUpdateFailed, TypeError)]\<rparr>, w)"
    using u by (simp add: reconcileResult_def)
  with u nameless_from_csv show ?thesis
    by (intro conjI)
qed

end
